theory Spec2Isabelle
  imports
    Complex_Main
    "HOL-Library.Char_ord"
    "HOL-Library.List_Lexorder"
    "HOL-Library.Multiset"
    "HOL-Library.Code_Target_Nat"
begin

section \<open>The uidstress engine: chunked generation, persistence and k-way merge\<close>

text \<open>
  This theory embeds the package \<open>uidstress\<close> (the file with \<open>Run\<close>, \<open>runScheme\<close>,
  \<open>mergeChunks\<close> and \<open>dedupeSorted\<close>) and proves properties of it.

  A Go \<open>string\<close> is a byte sequence: \<^typ>\<open>string\<close>, with the bytewise lexicographic order
  of Go's \<open><\<close> on strings (the order on \<^typ>\<open>char\<close> is the order of the byte values, a proper
  prefix is smaller).
\<close>

text \<open>
  The first part is the embedding of the program, in the order of its data and call
  structure; the second part proves its properties. The only lemmas in the first part are
  those the termination of the merge loop needs.
\<close>

subsection \<open>Data model\<close>

text \<open>
  The structs of the package. \<open>time.Time\<close> and \<open>time.Duration\<close> fields (\<open>CreatedAt\<close>,
  \<open>Duration\<close>) are left out: no decision of the code reads them. A field whose name is used
  by two structs is prefixed in the second (\<open>man_\<close> for \<open>manifest\<close>, \<open>res_\<close> for \<open>Result\<close>).
  The counters are \<open>int64\<close> in the source and \<^typ>\<open>int\<close> here, except where the source can
  overflow (\<open>ensureMemory\<close>, \<open>runScheme\<close>'s estimate), where the wrap-around is written out.
  A \<open>float64\<close> is a \<^typ>\<open>real\<close>, and each arithmetic operation rounds its exact result with
  the rounding function of the environment (NaN and the infinities are not modelled).
\<close>

record Config =
  Schemes :: "string list"
  Scale :: int
  ChunkSize :: int
  Workers :: int
  TempDir :: string
  KeepTempData :: bool
  LogInterval :: int
  Verbose :: bool
  ApproxBytesPerID :: int
  MemGuardMB :: real
  DiskSafetyFactor :: real

record Result =
  res_Scheme :: string
  res_Chunks :: int
  Generated :: int
  ChunkUnique :: int
  Unique :: int
  Duplicates :: int
  ManifestPath :: string
  OutputDir :: string

record chunkMeta =
  Index :: int
  Path :: string
  UniqueCount :: int
  OriginalCount :: int
  Hash :: string
  SizeBytes :: int

record manifest =
  man_Scheme :: string
  man_Scale :: int
  man_ChunkSize :: int
  man_ApproxBytesPerID :: int
  man_Chunks :: "chunkMeta list"

text \<open>
  Every error the package returns, one constructor for each \<open>fmt.Errorf\<close>/\<open>errors.New\<close> of
  the source and for the errors of the library calls it passes on.
\<close>

datatype error =
    ErrScale                                \<comment> \<open>\<open>scale must be > 0\<close>\<close>
  | ErrUnknownScheme string                 \<comment> \<open>\<open>unknown scheme %q\<close>\<close>
  | ErrGetwd                                \<comment> \<open>\<open>get current directory: %w\<close>\<close>
  | ErrCreateTmp                            \<comment> \<open>\<open>create tmp directory: %w\<close>\<close>
  | ErrCreateTempDir                        \<comment> \<open>\<open>create temp dir: %w\<close>\<close>
  | ErrReadMemory                           \<comment> \<open>\<open>read memory info: %w\<close>\<close>
  | ErrInsufficientMemory real real         \<comment> \<open>\<open>insufficient memory: need .. available ..\<close>\<close>
  | ErrReadDisk                             \<comment> \<open>\<open>read disk usage: %w\<close>\<close>
  | ErrInsufficientDisk string              \<comment> \<open>\<open>insufficient disk space %s\<close>\<close>
  | ErrSliceCapacity int                    \<comment> \<open>\<open>chunk size %d exceeds supported slice capacity\<close>\<close>
  | ErrChunkHashMismatch string string      \<comment> \<open>\<open>chunk hash mismatch: mem=%s file=%s\<close>\<close>
  | ErrIO string                            \<comment> \<open>an error of \<open>os\<close> on the path\<close>
  | ErrHashChunk string error               \<comment> \<open>\<open>hash chunk %s: %w\<close>\<close>
  | ErrVerifyMismatch string string string  \<comment> \<open>\<open>chunk %s hash mismatch, expected %s got %s\<close>\<close>
  | ErrNoChunks                             \<comment> \<open>\<open>manifest contains no chunks\<close>\<close>
  | ErrAllChunksEmpty                       \<comment> \<open>\<open>all chunks empty\<close>\<close>
  | ErrTooLong                              \<comment> \<open>\<open>bufio.ErrTooLong\<close>, from \<open>Scanner.Err\<close>\<close>
  | ErrCanceled                             \<comment> \<open>\<open>ctx.Err()\<close>\<close>
  | ErrInconsistent int int int             \<comment> \<open>\<open>inconsistent counts: ..\<close>\<close>
  | PanicMakeslice                          \<comment> \<open>the run-time panic of \<open>make\<close> with a negative capacity\<close>

subsection \<open>The environment\<close>

text \<open>
  Library functions the package calls and does not define are parameters, gathered in one
  record: SHA-256 followed by \<open>hex.EncodeToString\<close>, \<open>json.MarshalIndent\<close> on a manifest,
  the rounding of \<open>float64\<close> arithmetic, and \<open>strings.ToLower\<close>. The theorems hold for every
  choice of them.
\<close>

record lib =
  sha256_hex :: "string \<Rightarrow> string"
  json_marshal :: "manifest \<Rightarrow> string"
  float64_round :: "real \<Rightarrow> real"
  to_lower :: "string \<Rightarrow> string"

datatype generator = NanoID16 | ULID | KSUID | CustomUID

text \<open>
  The state outside the program, passed explicitly:
  \<^item> \<open>files\<close>: the content of every regular file, by path; \<open>dirs\<close>: the directories;
  \<^item> \<open>unwritable\<close>: the paths at which creating a file or directory fails;
  \<^item> \<open>open_files\<close>: the paths of the files the program holds open;
  \<^item> \<open>cwd\<close>: the result of \<open>os.Getwd\<close> (\<open>None\<close>: it fails); \<open>tmp_serial\<close>: the source of
    the fresh suffix of \<open>os.MkdirTemp\<close>;
  \<^item> \<open>mem_available\<close>, \<open>disk_free\<close>: what \<open>mem.VirtualMemory\<close> and \<open>disk.Usage\<close> report, in
    bytes (\<open>None\<close>: the query fails);
  \<^item> \<open>id_source\<close>, \<open>drawn\<close>: the identifiers each generator returns, in the order of the
    calls, and the number of calls made so far;
  \<^item> \<open>ctx\<close>: the cancellation signal, as the number of polls of \<open>ctx.Done()\<close> that still
    find it open (\<open>None\<close>: it is never cancelled). Once cancelled, it stays cancelled;
  \<^item> \<open>num_cpu\<close>: the result of \<open>runtime.NumCPU\<close>.
  An operation that changes the world returns the new world, with its error (\<open>None\<close> is
  Go's \<open>nil\<close>) or its result.
\<close>

record world =
  files :: "string \<rightharpoonup> string"
  dirs :: "string list"
  unwritable :: "string \<Rightarrow> bool"
  open_files :: "string list"
  cwd :: "string option"
  tmp_serial :: nat
  mem_available :: "nat option"
  disk_free :: "nat option"
  id_source :: "generator \<Rightarrow> nat \<Rightarrow> string"
  drawn :: nat
  ctx :: "nat option"
  num_cpu :: int

text \<open>
  \<^verbatim>\<open>select { case <-ctx.Done(): return ..., ctx.Err()  default: }\<close>:
  \<open>ctx_done\<close> is the non-blocking poll; it returns whether the signal was seen and the signal
  after the poll.
\<close>

fun ctx_done :: "nat option \<Rightarrow> bool \<times> nat option" where
  "ctx_done None = (False, None)"
| "ctx_done (Some 0) = (True, Some 0)"
| "ctx_done (Some (Suc n)) = (False, Some n)"

subsection \<open>Paths\<close>

definition newline :: char where
  "newline = CHR 0x0A"

definition filepath_Join :: "string \<Rightarrow> string \<Rightarrow> string" where
  "filepath_Join dir name = (if dir = [] then name else dir @ ''/'' @ name)"

definition filepath_Dir :: "string \<Rightarrow> string" where
  "filepath_Dir path =
     (let d = rev (dropWhile (\<lambda>c. c \<noteq> CHR ''/'') (rev path))
      in if d = [] then ''.'' else if d = ''/'' then d else butlast d)"

definition MkdirAll :: "world \<Rightarrow> string \<Rightarrow> world \<times> error option" where
  "MkdirAll w dir =
     (if unwritable w dir then (w, Some (ErrIO dir))
      else (w\<lparr>dirs := List.insert dir (dirs w)\<rparr>, None))"

subsection \<open>\<open>dedupeSorted\<close>: in-place compaction of a sorted slice\<close>

text \<open>
  \<^verbatim>\<open>
  func dedupeSorted(values []string) []string {
      if len(values) == 0 { return values[:0] }
      writeIdx := 1
      prev := values[0]
      for i := 1; i < len(values); i++ {
          if values[i] != prev {
              values[writeIdx] = values[i]
              prev = values[i]
              writeIdx++
          }
      }
      return values[:writeIdx]
  }
  \<close>
  The loop is \<open>dedupe_loop\<close>, on the loop variables \<open>vals\<close> (the array \<open>values\<close>, updated in place),
  \<open>writeIdx\<close>, \<open>prev\<close> and \<open>i\<close>. Every index it reads or writes is below \<open>len(values)\<close>
  (\<open>writeIdx \<le> i < len(values)\<close>), so no access of the source panics.
\<close>

function dedupe_loop :: "string list \<Rightarrow> nat \<Rightarrow> string \<Rightarrow> nat \<Rightarrow> string list \<times> nat" where
  "dedupe_loop vals writeIdx prev i =
     (if i < length vals then
        (if vals ! i \<noteq> prev
         then dedupe_loop (vals[writeIdx := vals ! i]) (Suc writeIdx) (vals ! i) (Suc i)
         else dedupe_loop vals writeIdx prev (Suc i))
      else (vals, writeIdx))"
  by pat_completeness auto

termination
  by (relation "measure (\<lambda>(vals, writeIdx, prev, i). length vals - i)") auto

definition dedupeSorted :: "string list \<Rightarrow> string list" where
  "dedupeSorted vals =
     (if length vals = 0 then take 0 vals
      else (case dedupe_loop vals 1 (vals ! 0) 1 of
              (vals', writeIdx) \<Rightarrow> take writeIdx vals'))"

declare dedupe_loop.simps [simp del]

subsection \<open>Hashing and persisting a chunk\<close>

text \<open>
  \<^verbatim>\<open>
  func hashStrings(values []string) string {
      h := sha256.New()
      for _, v := range values {
          h.Write([]byte(v))
          h.Write([]byte{'\n'})
      }
      return hex.EncodeToString(h.Sum(nil))
  }
  \<close>
  A \<open>hash.Hash\<close> is the sequence of the bytes written to it so far; \<open>Sum\<close> hashes them.
\<close>

definition hash_Write :: "string \<Rightarrow> string \<Rightarrow> string" where
  "hash_Write h p = h @ p"

fun hashStrings_loop :: "string \<Rightarrow> string list \<Rightarrow> string" where
  "hashStrings_loop h [] = h"
| "hashStrings_loop h (v # vals) = hashStrings_loop (hash_Write (hash_Write h v) [newline]) vals"

definition hashStrings :: "lib \<Rightarrow> string list \<Rightarrow> string" where
  "hashStrings L vals = sha256_hex L (hashStrings_loop [] vals)"

text \<open>
  \<^verbatim>\<open>
  func writeChunkFile(path string, values []string) error {
      if err := os.MkdirAll(filepath.Dir(path), 0o755); err != nil { return err }
      f, err := os.Create(path)
      if err != nil { return err }
      defer f.Close()
      writer := bufio.NewWriter(f)
      for _, v := range values {
          if _, err := writer.WriteString(v); err != nil { return err }
          if err := writer.WriteByte('\n'); err != nil { return err }
      }
      if err := writer.Flush(); err != nil { return err }
      if err := f.Sync(); err != nil { return err }
      return nil
  }
  \<close>
  The \<open>bufio.Writer\<close> over the created (truncated) file is the sequence of the bytes written
  through it; after \<open>Flush\<close> and \<open>Sync\<close> they are the content of the file. Creating the
  directory or the file fails at an unwritable path; a write to a created file does not fail.
\<close>

definition WriteString :: "string \<Rightarrow> string \<Rightarrow> string" where
  "WriteString writer s = writer @ s"

definition WriteByte :: "string \<Rightarrow> char \<Rightarrow> string" where
  "WriteByte writer c = writer @ [c]"

fun writeChunkFile_loop :: "string \<Rightarrow> string list \<Rightarrow> string" where
  "writeChunkFile_loop writer [] = writer"
| "writeChunkFile_loop writer (v # vals) =
     writeChunkFile_loop (WriteByte (WriteString writer v) newline) vals"

definition writeChunkFile :: "world \<Rightarrow> string \<Rightarrow> string list \<Rightarrow> world \<times> error option" where
  "writeChunkFile w path vals =
     (case MkdirAll w (filepath_Dir path) of
        (w1, Some err) \<Rightarrow> (w1, Some err)
      | (w1, None) \<Rightarrow>
          if unwritable w1 path then (w1, Some (ErrIO path))
          else (w1\<lparr>files := (files w1)(path \<mapsto> writeChunkFile_loop [] vals)\<rparr>, None))"

text \<open>
  \<^verbatim>\<open>
  func hashFile(path string) (string, error) {
      f, err := os.Open(path)
      if err != nil { return "", err }
      defer f.Close()
      h := sha256.New()
      if _, err := io.Copy(h, f); err != nil { return "", err }
      return hex.EncodeToString(h.Sum(nil)), nil
  }
  \<close>
  \<open>os.Open\<close> fails where there is no file. The file is closed again on return, so the set of
  open files is unchanged.
\<close>

definition hashFile :: "lib \<Rightarrow> world \<Rightarrow> string \<Rightarrow> error + string" where
  "hashFile L w path =
     (case files w path of
        None \<Rightarrow> Inl (ErrIO path)
      | Some content \<Rightarrow> Inr (sha256_hex L (hash_Write [] content)))"

subsection \<open>Reading a chunk back: the cursor\<close>

text \<open>
  A \<open>chunkReader\<close> holds a \<open>bufio.Scanner\<close> over the opened file, with the default split
  function \<open>bufio.ScanLines\<close> and a maximal token size of \<open>1024*1024\<close>
  (\<open>sc.Buffer(buf, 1024*1024)\<close>). The scanner is modelled by the bytes it has not consumed
  yet (field \<open>input\<close>). One \<open>Scan\<close> is \<open>scan\<close>:
  \<^item> no byte left: end of input;
  \<^item> otherwise the token is the bytes before the first \<open>'\n'\<close> (or all the bytes left, when
    there is none), without one trailing \<open>'\r'\<close>; the newline is consumed with it;
  \<^item> a line that does not fit the buffer with its newline, that is one of \<open>1024*1024\<close> bytes
    or more, ends the scan with \<open>bufio.ErrTooLong\<close>.
  The fields \<open>value\<close> of \<open>chunkReader\<close> and \<open>heapEntry\<close> are named \<open>cur\<close> and \<open>key\<close>.
\<close>

definition maxTokenSize :: nat where
  "maxTokenSize = 1024 * 1024"

definition dropCR :: "string \<Rightarrow> string" where
  "dropCR d = (if d \<noteq> [] \<and> last d = CHR 0x0D then butlast d else d)"

datatype scan_result = ScanEOF | ScanErr | ScanToken string string

definition scan :: "string \<Rightarrow> scan_result" where
  "scan d =
     (if d = [] then ScanEOF
      else let line = takeWhile (\<lambda>c. c \<noteq> newline) d
           in if maxTokenSize \<le> length line then ScanErr
              else ScanToken (dropCR line) (drop (Suc (length line)) d))"

record chunkReader =
  meta :: chunkMeta
  input :: string
  cur :: string
  eof :: bool

text \<open>
  \<^verbatim>\<open>
  func (c *chunkReader) advance() error {
      if c.eof { return nil }
      if !c.reader.Scan() {
          if err := c.reader.Err(); err != nil { return err }
          c.eof = true
          c.value = ""
          return nil
      }
      c.value = c.reader.Text()
      return nil
  }
  \<close>
\<close>

definition advance :: "chunkReader \<Rightarrow> error + chunkReader" where
  "advance c =
     (if eof c then Inr c
      else (case scan (input c) of
              ScanErr \<Rightarrow> Inl ErrTooLong
            | ScanEOF \<Rightarrow> Inr (c\<lparr>eof := True, cur := []\<rparr>)
            | ScanToken t rest \<Rightarrow> Inr (c\<lparr>cur := t, input := rest\<rparr>)))"

text \<open>
  \<^verbatim>\<open>
  func newChunkReader(meta chunkMeta) (*chunkReader, error) {
      f, err := os.Open(meta.Path)
      if err != nil { return nil, err }
      sc := bufio.NewScanner(f)
      ...
      cr := &chunkReader{meta: meta, file: f, reader: sc}
      if err := cr.advance(); err != nil {
          f.Close()
          return nil, err
      }
      return cr, nil
  }
  func (c *chunkReader) close() error { return c.file.Close() }
  \<close>
\<close>

definition close_reader :: "world \<Rightarrow> chunkReader \<Rightarrow> world" where
  "close_reader w c = w\<lparr>open_files := remove1 (Path (meta c)) (open_files w)\<rparr>"

definition newChunkReader :: "world \<Rightarrow> chunkMeta \<Rightarrow> world \<times> (error + chunkReader)" where
  "newChunkReader w m =
     (case files w (Path m) of
        None \<Rightarrow> (w, Inl (ErrIO (Path m)))
      | Some content \<Rightarrow>
          (case advance \<lparr>meta = m, input = content, cur = [], eof = False\<rparr> of
             Inl err \<Rightarrow> (w, Inl err)
           | Inr cr \<Rightarrow> (w\<lparr>open_files := Path m # open_files w\<rparr>, Inr cr)))"

subsection \<open>The priority queue: \<open>mergeHeap\<close> under \<open>container/heap\<close>\<close>

text \<open>
  \<^verbatim>\<open>
  type heapEntry struct { value string; reader *chunkReader }
  type mergeHeap []*heapEntry
  func (h mergeHeap) Len() int           { return len(h) }
  func (h mergeHeap) Less(i, j int) bool { return h[i].value < h[j].value }
  func (h mergeHeap) Swap(i, j int)      { h[i], h[j] = h[j], h[i] }
  func (h *mergeHeap) Push(x any)        { *h = append(*h, x.(*heapEntry)) }
  func (h *mergeHeap) Pop() any {
      old := *h; n := len(old); item := old[n-1]; *h = old[:n-1]; return item
  }
  \<close>
  Each reader is referenced by at most one entry of the heap, so an entry holds its reader by
  value.
\<close>

record heapEntry =
  key :: string
  reader :: chunkReader

type_synonym mergeHeap = "heapEntry list"

definition Less :: "mergeHeap \<Rightarrow> nat \<Rightarrow> nat \<Rightarrow> bool" where
  "Less h i j = (key (h ! i) < key (h ! j))"

definition Swap :: "mergeHeap \<Rightarrow> nat \<Rightarrow> nat \<Rightarrow> mergeHeap" where
  "Swap h i j = h[i := h ! j, j := h ! i]"

text \<open>
  The functions of Go's \<open>container/heap\<close> that the package calls, on a \<open>mergeHeap\<close>:
  \<^verbatim>\<open>
  func up(h Interface, j int) {
      for {
          i := (j - 1) / 2 // parent
          if i == j || !h.Less(j, i) { break }
          h.Swap(i, j)
          j = i
      }
  }
  func down(h Interface, i0, n int) bool {
      i := i0
      for {
          j1 := 2*i + 1
          if j1 >= n || j1 < 0 { break }
          j := j1 // left child
          if j2 := j1 + 1; j2 < n && h.Less(j2, j1) { j = j2 }
          if !h.Less(j, i) { break }
          h.Swap(i, j)
          i = j
      }
      return i > i0
  }
  func Init(h Interface) { n := h.Len(); for i := n/2 - 1; i >= 0; i-- { down(h, i, n) } }
  func Push(h Interface, x any) { h.Push(x); up(h, h.Len()-1) }
  func Pop(h Interface) any { n := h.Len() - 1; h.Swap(0, n); down(h, 0, n); return h.Pop() }
  \<close>
  Indices are \<^typ>\<open>nat\<close>: \<open>(j - 1) / 2\<close> is \<open>0\<close> for \<open>j = 0\<close> in Go (division truncates towards
  zero) and here. \<open>heap_Pop\<close> is only called on a heap that is not empty, as in the source.
\<close>

function up :: "mergeHeap \<Rightarrow> nat \<Rightarrow> mergeHeap" where
  "up h j =
     (let i = (j - 1) div 2
      in if i = j \<or> \<not> Less h j i then h else up (Swap h i j) i)"
  by pat_completeness auto

termination
  by (relation "measure (\<lambda>(h, j). j)") auto

function down :: "mergeHeap \<Rightarrow> nat \<Rightarrow> nat \<Rightarrow> mergeHeap" where
  "down h i n =
     (let j1 = 2 * i + 1
      in if n \<le> j1 then h
         else let j = (if j1 + 1 < n \<and> Less h (j1 + 1) j1 then j1 + 1 else j1)
              in if \<not> Less h j i then h else down (Swap h i j) j n)"
  by pat_completeness auto

termination
  by (relation "measure (\<lambda>(h, i, n). n - i)") auto

declare up.simps [simp del] down.simps [simp del]

fun heap_Init_loop :: "mergeHeap \<Rightarrow> nat \<Rightarrow> nat \<Rightarrow> mergeHeap" where
  "heap_Init_loop h 0 n = h"
| "heap_Init_loop h (Suc i) n = heap_Init_loop (down h i n) i n"

definition heap_Init :: "mergeHeap \<Rightarrow> mergeHeap" where
  "heap_Init h = (let n = length h in heap_Init_loop h (n div 2) n)"

definition heap_Push :: "mergeHeap \<Rightarrow> heapEntry \<Rightarrow> mergeHeap" where
  "heap_Push h x = (let h1 = h @ [x] in up h1 (length h1 - 1))"

definition heap_Pop :: "mergeHeap \<Rightarrow> heapEntry \<times> mergeHeap" where
  "heap_Pop h =
     (let n = length h - 1;
          h1 = Swap h 0 n;
          h2 = down h1 0 n
      in (h2 ! (length h2 - 1), take (length h2 - 1) h2))"

subsection \<open>The heap operations keep the entries\<close>

text \<open>
  Swapping, sifting up and sifting down keep the length and the entries of the heap.
\<close>

lemma length_Swap [simp]: "length (Swap h i j) = length h"
  by (simp add: Swap_def)

lemma mset_Swap: "i < length h \<Longrightarrow> j < length h \<Longrightarrow> mset (Swap h i j) = mset h"
  by (simp add: Swap_def mset_swap)

lemma nth_Swap:
  "i < length h \<Longrightarrow> j < length h \<Longrightarrow>
   Swap h i j ! k = (if k = j then h ! i else if k = i then h ! j else h ! k)"
  by (simp add: Swap_def nth_list_update)

lemma length_up [simp]: "length (up h j) = length h"
proof (induction h j rule: up.induct)
  case (1 h j)
  show ?case
    by (subst up.simps) (simp add: Let_def "1.IH")
qed

lemma length_down [simp]: "length (down h i n) = length h"
proof (induction h i n rule: down.induct)
  case (1 h i n)
  show ?case
    by (subst down.simps) (simp add: Let_def "1.IH")
qed

lemma mset_up: "j < length h \<Longrightarrow> mset (up h j) = mset h"
proof (induction h j rule: up.induct)
  case (1 h j)
  show ?case
  proof (cases "(j - 1) div 2 = j \<or> \<not> Less h j ((j - 1) div 2)")
    case True
    then show ?thesis by (subst up.simps) (simp add: Let_def)
  next
    case False
    have lt: "(j - 1) div 2 < length h" using "1.prems" by simp
    have "up h j = up (Swap h ((j - 1) div 2) j) ((j - 1) div 2)"
      using False by (subst up.simps) (simp add: Let_def)
    then show ?thesis
      using "1.IH" [OF refl False] lt "1.prems" by (simp add: mset_Swap)
  qed
qed

definition smaller_child :: "mergeHeap \<Rightarrow> nat \<Rightarrow> nat \<Rightarrow> nat" where
  "smaller_child h i n =
     (if 2 * i + 1 + 1 < n \<and> Less h (2 * i + 1 + 1) (2 * i + 1) then 2 * i + 1 + 1 else 2 * i + 1)"

lemma down_unfold:
  "down h i n =
     (if n \<le> 2 * i + 1 then h
      else if \<not> Less h (smaller_child h i n) i then h
      else down (Swap h i (smaller_child h i n)) (smaller_child h i n) n)"
  by (subst down.simps) (simp only: Let_def smaller_child_def)

lemma down_induct [case_names step]:
  assumes "\<And>h i n.
     (\<not> n \<le> 2 * i + 1 \<Longrightarrow> Less h (smaller_child h i n) i \<Longrightarrow>
        P (Swap h i (smaller_child h i n)) (smaller_child h i n) n) \<Longrightarrow> P h i n"
  shows "P h i n"
proof (induction h i n rule: down.induct)
  case (1 h i n)
  show ?case
  proof (rule assms)
    assume a: "\<not> n \<le> 2 * i + 1" and b: "Less h (smaller_child h i n) i"
    from b have b': "\<not> \<not> Less h (if 2 * i + 1 + 1 < n \<and> Less h (2 * i + 1 + 1) (2 * i + 1) then 2 * i + 1 + 1 else 2 * i + 1) i"
      by (simp only: smaller_child_def not_not)
    show "P (Swap h i (smaller_child h i n)) (smaller_child h i n) n"
      unfolding smaller_child_def by (rule "1.IH" [OF refl a refl b'])
  qed
qed

lemma smaller_child_cases:
  "smaller_child h i n = 2 * i + 1 \<or> smaller_child h i n = 2 * i + 2 \<and> 2 * i + 2 < n"
  by (simp add: smaller_child_def)

lemma smaller_child_lt: "\<not> n \<le> 2 * i + 1 \<Longrightarrow> smaller_child h i n < n"
  by (simp add: smaller_child_def)

lemma mset_down: "n \<le> length h \<Longrightarrow> mset (down h i n) = mset h"
proof (induction h i n rule: down_induct)
  case (step h i n)
  show ?case
  proof (cases "\<not> n \<le> 2 * i + 1 \<and> Less h (smaller_child h i n) i")
    case True
    then have "mset (down h i n) = mset (Swap h i (smaller_child h i n))"
      using step by (subst down_unfold) simp
    also have "\<dots> = mset h"
      using True smaller_child_lt [of n i h] step.prems by (intro mset_Swap) auto
    finally show ?thesis .
  next
    case False
    then show ?thesis by (subst down_unfold) auto
  qed
qed

lemma nth_down_beyond: "n \<le> k \<Longrightarrow> down h i n ! k = h ! k"
proof (induction h i n rule: down_induct)
  case (step h i n)
  show ?case
  proof (cases "\<not> n \<le> 2 * i + 1 \<and> Less h (smaller_child h i n) i")
    case True
    then have "down h i n ! k = Swap h i (smaller_child h i n) ! k"
      using step by (subst down_unfold) simp
    also have "\<dots> = h ! k"
      using True smaller_child_lt [of n i h] step.prems by (simp add: Swap_def)
    finally show ?thesis .
  next
    case False
    then show ?thesis by (subst down_unfold) auto
  qed
qed

lemma mset_heap_Push: "mset (heap_Push h x) = add_mset x (mset h)"
  by (simp add: heap_Push_def Let_def mset_up)

lemma length_heap_Push [simp]: "length (heap_Push h x) = Suc (length h)"
  by (simp add: heap_Push_def Let_def)

lemma heap_Pop_fst: "h \<noteq> [] \<Longrightarrow> fst (heap_Pop h) = h ! 0"
  by (cases "length h = 1") (auto simp: heap_Pop_def Let_def nth_down_beyond nth_Swap)

lemma mset_heap_Pop:
  assumes "h \<noteq> []"
  shows "add_mset (fst (heap_Pop h)) (mset (snd (heap_Pop h))) = mset h"
proof -
  let ?n = "length h - 1"
  let ?h2 = "down (Swap h 0 ?n) 0 ?n"
  have len: "length ?h2 = Suc ?n" using assms by (cases h) auto
  have "mset ?h2 = mset h"
    using assms by (simp add: mset_down mset_Swap)
  moreover have "?h2 = take ?n ?h2 @ [?h2 ! ?n]"
    using len by (metis lessI take_Suc_conv_app_nth take_all order_refl)
  then have "mset ?h2 = add_mset (?h2 ! ?n) (mset (take ?n ?h2))"
    by (metis mset.simps(1) mset.simps(2) mset_append union_mset_add_mset_right add.right_neutral)
  ultimately show ?thesis
    by (simp add: heap_Pop_def Let_def)
qed

lemma length_heap_Pop: "h \<noteq> [] \<Longrightarrow> length (snd (heap_Pop h)) = length h - 1"
  by (simp add: heap_Pop_def Let_def)

subsection \<open>\<open>mergeChunks\<close>: the k-way merge\<close>

text \<open>
  \<^verbatim>\<open>
  func mergeChunks(ctx context.Context, man *manifest, verbose bool, logInterval int64) (int64, int64, error) {
      if len(man.Chunks) == 0 { return 0, 0, errors.New("manifest contains no chunks") }
      readers := make([]*chunkReader, 0, len(man.Chunks))
      for _, meta := range man.Chunks {
          cr, err := newChunkReader(meta)
          if err != nil {
              for _, r := range readers { r.close() }
              return 0, 0, err
          }
          if cr.eof { cr.close(); continue }
          readers = append(readers, cr)
      }
      if len(readers) == 0 { return 0, 0, errors.New("all chunks empty") }
      defer func() { for _, r := range readers { r.close() } }()
      h := mergeHeap{}
      for _, r := range readers { h = append(h, &heapEntry{value: r.value, reader: r}) }
      heap.Init(&h)
      var ( prevValue string; hasPrev bool; unique int64; duplicates int64; processed int64 )
      for len(h) > 0 {
          select { case <-ctx.Done(): return 0, 0, ctx.Err()  default: }
          entry := heap.Pop(&h).(*heapEntry)
          if hasPrev && entry.value == prevValue {
              duplicates++
          } else {
              unique++
              prevValue = entry.value
              hasPrev = true
          }
          processed++
          if verbose && logInterval > 0 && processed%logInterval == 0 { fmt.Printf(...) }
          if err := entry.reader.advance(); err != nil { return 0, 0, err }
          if !entry.reader.eof {
              heap.Push(&h, &heapEntry{value: entry.reader.value, reader: entry.reader})
          }
      }
      return unique, duplicates, nil
  }
  \<close>
  \<open>mergeLoop\<close> is the \<open>for len(h) > 0\<close> loop on its variables (and the context, which it
  polls); \<open>openReaders\<close> is the loop that opens the cursors, on \<open>readers\<close>; \<open>closeAll\<close> is the
  loop of the deferred function, which runs on every return after the \<open>defer\<close>. The progress
  line printed under \<open>verbose\<close> is not modelled, so \<open>verbose\<close> and \<open>logInterval\<close> are not
  parameters; the context is the field \<open>ctx\<close> of the world. The counters would need \<open>2^63\<close>
  records to overflow.
\<close>

text \<open>
  The loop ends because every iteration either drops an entry of the heap or replaces it by
  one whose reader has less input left: \<open>heap_size\<close> is the measure.
\<close>

definition heap_size :: "mergeHeap \<Rightarrow> nat" where
  "heap_size h = sum_mset (image_mset (\<lambda>e. Suc (length (input (reader e)))) (mset h))"

lemma heap_size_Push: "heap_size (heap_Push h x) = heap_size h + Suc (length (input (reader x)))"
  by (simp add: heap_size_def mset_heap_Push)

lemma heap_size_Pop:
  "h \<noteq> [] \<Longrightarrow> heap_Pop h = (e, h1) \<Longrightarrow> heap_size h = heap_size h1 + Suc (length (input (reader e)))"
  using mset_heap_Pop [of h] by (simp add: heap_size_def flip: mset_heap_Pop [of h])

lemma advance_shorter:
  "advance c = Inr r \<Longrightarrow> \<not> eof r \<Longrightarrow> length (input r) < length (input c)"
  by (auto simp: advance_def scan_def Let_def split: if_splits scan_result.splits)

function mergeLoop ::
  "nat option \<Rightarrow> mergeHeap \<Rightarrow> string \<Rightarrow> bool \<Rightarrow> int \<Rightarrow> int \<Rightarrow> int \<Rightarrow> nat option \<times> (error + int \<times> int)"
where
  "mergeLoop c h prevValue hasPrev unique duplicates processed =
     (if 0 < length h then
        (case ctx_done c of
           (done, c') \<Rightarrow>
             if done then (c', Inl ErrCanceled)
             else (case heap_Pop h of
                     (entry, h1) \<Rightarrow>
                       (case advance (reader entry) of
                          Inl err \<Rightarrow> (c', Inl err)
                        | Inr r \<Rightarrow>
                            mergeLoop c'
                              (if \<not> eof r then heap_Push h1 \<lparr>key = cur r, reader = r\<rparr> else h1)
                              (if hasPrev \<and> key entry = prevValue then prevValue else key entry)
                              (if hasPrev \<and> key entry = prevValue then hasPrev else True)
                              (if hasPrev \<and> key entry = prevValue then unique else unique + 1)
                              (if hasPrev \<and> key entry = prevValue then duplicates + 1 else duplicates)
                              (processed + 1))))
      else (c, Inr (unique, duplicates)))"
  by pat_completeness auto

termination
proof (relation "measure (\<lambda>(c, h, prevValue, hasPrev, unique, duplicates, processed). heap_size h)",
    goal_cases)
  case 1
  show ?case by simp
next
  case (2 c h prevValue hasPrev unique duplicates processed x y entry h1 r)
  from 2 have ne: "h \<noteq> []" and pop: "heap_Pop h = (entry, h1)" by auto
  show ?case
    using heap_size_Pop [OF ne pop] advance_shorter [OF 2(5)]
    by (auto simp: heap_size_Push)
qed

fun closeAll :: "world \<Rightarrow> chunkReader list \<Rightarrow> world" where
  "closeAll w [] = w"
| "closeAll w (r # readers) = closeAll (close_reader w r) readers"

fun openReaders ::
  "world \<Rightarrow> chunkMeta list \<Rightarrow> chunkReader list \<Rightarrow> world \<times> (error + chunkReader list)"
where
  "openReaders w [] readers = (w, Inr readers)"
| "openReaders w (m # metas) readers =
     (case newChunkReader w m of
        (w1, Inl err) \<Rightarrow> (closeAll w1 readers, Inl err)
      | (w1, Inr cr) \<Rightarrow>
          if eof cr then openReaders (close_reader w1 cr) metas readers
          else openReaders w1 metas (readers @ [cr]))"

definition mergeChunks :: "world \<Rightarrow> manifest \<Rightarrow> world \<times> (error + int \<times> int)" where
  "mergeChunks w man =
     (if length (man_Chunks man) = 0 then (w, Inl ErrNoChunks)
      else (case openReaders w (man_Chunks man) [] of
              (w1, Inl err) \<Rightarrow> (w1, Inl err)
            | (w1, Inr readers) \<Rightarrow>
                if length readers = 0 then (w1, Inl ErrAllChunksEmpty)
                else (case mergeLoop (ctx w1)
                             (heap_Init (map (\<lambda>r. \<lparr>key = cur r, reader = r\<rparr>) readers))
                             [] False 0 0 0 of
                        (c', res) \<Rightarrow> (closeAll (w1\<lparr>ctx := c'\<rparr>) readers, res))))"

text \<open>
  The records of a chunk file, as successive calls of \<open>advance\<close> read them: \<open>scan_all\<close> is the
  list of all tokens of the input (\<open>None\<close>: a line is too long for the scanner), and
  \<open>chunk_records\<close> the records of the file a chunk record of the manifest points to (\<open>None\<close>
  also when there is no such file).
\<close>

lemma scan_shorter: "scan d = ScanToken t rest \<Longrightarrow> length rest < length d"
  by (auto simp: scan_def Let_def split: if_splits)

function scan_all :: "string \<Rightarrow> string list option" where
  "scan_all d =
     (case scan d of
        ScanEOF \<Rightarrow> Some []
      | ScanErr \<Rightarrow> None
      | ScanToken t rest \<Rightarrow> map_option ((#) t) (scan_all rest))"
  by pat_completeness auto

termination
  by (relation "measure length") (auto simp: scan_shorter)

declare scan_all.simps [simp del]

definition chunk_records :: "world \<Rightarrow> chunkMeta \<Rightarrow> string list option" where
  "chunk_records w m = (case files w (Path m) of None \<Rightarrow> None | Some content \<Rightarrow> scan_all content)"

subsection \<open>Resource guards\<close>

text \<open>
  \<open>int64\<close> is the wrap-around of Go's \<open>int64\<close> arithmetic, written out where a product of
  two configured numbers can leave the range. \<open>float64\<close> is the conversion of an integer, and
  \<open>fdiv\<close>, \<open>fadd\<close>, \<open>fmul\<close> are the rounded \<open>float64\<close> operations; comparisons of two \<open>float64\<close>
  values are exact.
  \<^verbatim>\<open>
  func ensureMemory(cfg Config, chunkTarget int64) error {
      neededMB := float64(chunkTarget*cfg.ApproxBytesPerID) / 1024 / 1024
      if neededMB <= 0 && cfg.MemGuardMB <= 0 { return nil }
      vm, err := mem.VirtualMemory()
      if err != nil { return fmt.Errorf("read memory info: %w", err) }
      availableMB := float64(vm.Available) / 1024 / 1024
      threshold := neededMB + cfg.MemGuardMB
      if threshold == 0 { threshold = neededMB }
      if availableMB < threshold {
          return fmt.Errorf("insufficient memory: need %.2f MB, available %.2f MB", threshold, availableMB)
      }
      return nil
  }
  func ensureDisk(path string, estimatedBytes int64, safety float64) error {
      usage, err := disk.Usage(path)
      if err != nil { return fmt.Errorf("read disk usage: %w", err) }
      required := float64(estimatedBytes) * safety
      if float64(usage.Free) < required { return fmt.Errorf("insufficient disk space ...") }
      return nil
  }
  \<close>
\<close>

definition int64 :: "int \<Rightarrow> int" where
  "int64 x = (x + 2 ^ 63) mod 2 ^ 64 - 2 ^ 63"

definition maxInt :: int where
  "maxInt = 2 ^ 63 - 1"

definition float64 :: "lib \<Rightarrow> int \<Rightarrow> real" where
  "float64 L x = float64_round L (of_int x)"

definition fdiv :: "lib \<Rightarrow> real \<Rightarrow> real \<Rightarrow> real" where
  "fdiv L x y = float64_round L (x / y)"

definition fadd :: "lib \<Rightarrow> real \<Rightarrow> real \<Rightarrow> real" where
  "fadd L x y = float64_round L (x + y)"

definition fmul :: "lib \<Rightarrow> real \<Rightarrow> real \<Rightarrow> real" where
  "fmul L x y = float64_round L (x * y)"

definition ensureMemory :: "lib \<Rightarrow> world \<Rightarrow> Config \<Rightarrow> int \<Rightarrow> error option" where
  "ensureMemory L w cfg chunkTarget =
     (let neededMB = fdiv L (fdiv L (float64 L (int64 (chunkTarget * ApproxBytesPerID cfg))) 1024) 1024
      in if neededMB \<le> 0 \<and> MemGuardMB cfg \<le> 0 then None
         else (case mem_available w of
                 None \<Rightarrow> Some ErrReadMemory
               | Some available \<Rightarrow>
                   let availableMB = fdiv L (fdiv L (float64 L (int available)) 1024) 1024;
                       threshold0 = fadd L neededMB (MemGuardMB cfg);
                       threshold = (if threshold0 = 0 then neededMB else threshold0)
                   in if availableMB < threshold
                      then Some (ErrInsufficientMemory threshold availableMB)
                      else None))"

definition ensureDisk :: "lib \<Rightarrow> world \<Rightarrow> string \<Rightarrow> int \<Rightarrow> real \<Rightarrow> error option" where
  "ensureDisk L w path estimatedBytes safety =
     (case disk_free w of
        None \<Rightarrow> Some ErrReadDisk
      | Some free \<Rightarrow>
          let required = fmul L (float64 L estimatedBytes) safety
          in if float64 L (int free) < required then Some (ErrInsufficientDisk path) else None)"

subsection \<open>Generators\<close>

text \<open>
  \<^verbatim>\<open>
  func generatorFor(name string) (func() string, error) {
      switch strings.ToLower(name) {
      case "nanoid16", "nanoid": return func() string { return tools.GetNanoIdBy(16) }, nil
      case "ulid":               return tools.GenerateULID, nil
      case "ksuid":              return tools.GenerateKSUID, nil
      case "customuid", "custom": return tools.GenerateCustomUID, nil
      default:                   return nil, fmt.Errorf("unknown scheme %q", name)
      }
  }
  \<close>
  A call of the generator takes the next identifier of the world's source for it.
\<close>

definition generatorFor :: "lib \<Rightarrow> string \<Rightarrow> error + generator" where
  "generatorFor L name =
     (let n = to_lower L name
      in if n = ''nanoid16'' \<or> n = ''nanoid'' then Inr NanoID16
         else if n = ''ulid'' then Inr ULID
         else if n = ''ksuid'' then Inr KSUID
         else if n = ''customuid'' \<or> n = ''custom'' then Inr CustomUID
         else Inl (ErrUnknownScheme name))"

definition gen :: "world \<Rightarrow> generator \<Rightarrow> string \<times> world" where
  "gen w g = (id_source w g (drawn w), w\<lparr>drawn := Suc (drawn w)\<rparr>)"

text \<open>
  \<^verbatim>\<open>
  chunkIDs := make([]string, 0, int(chunkTarget))
  for int64(len(chunkIDs)) < chunkTarget { chunkIDs = append(chunkIDs, gen()) }
  \<close>
\<close>

function gen_loop :: "world \<Rightarrow> generator \<Rightarrow> int \<Rightarrow> string list \<Rightarrow> string list \<times> world" where
  "gen_loop w g chunkTarget chunkIDs =
     (if int (length chunkIDs) < chunkTarget
      then (case gen w g of (s, w') \<Rightarrow> gen_loop w' g chunkTarget (chunkIDs @ [s]))
      else (chunkIDs, w))"
  by pat_completeness auto

termination
  by (relation "measure (\<lambda>(w, g, chunkTarget, chunkIDs). nat (chunkTarget - int (length chunkIDs)))")
    auto

declare gen_loop.simps [simp del]

subsection \<open>The manifest\<close>

text \<open>
  \<^verbatim>\<open>
  func saveManifest(dir string, man *manifest) error {
      data, err := json.MarshalIndent(man, "", "  ")
      if err != nil { return err }
      tmp := filepath.Join(dir, "manifest.json.tmp")
      if err := os.WriteFile(tmp, data, 0o644); err != nil { return err }
      if err := os.Rename(tmp, filepath.Join(dir, "manifest.json")); err != nil { return err }
      sum := sha256.Sum256(data)
      return os.WriteFile(filepath.Join(dir, "manifest.json.sha256"), []byte(hex.EncodeToString(sum[:])), 0o644)
  }
  func verifyChunks(man *manifest) error {
      for _, ch := range man.Chunks {
          hash, err := hashFile(ch.Path)
          if err != nil { return fmt.Errorf("hash chunk %s: %w", ch.Path, err) }
          if hash != ch.Hash { return fmt.Errorf("chunk %s hash mismatch, expected %s got %s", ...) }
      }
      return nil
  }
  \<close>
  Marshalling a manifest does not fail.
\<close>

definition WriteFile :: "world \<Rightarrow> string \<Rightarrow> string \<Rightarrow> world \<times> error option" where
  "WriteFile w path content =
     (if unwritable w path then (w, Some (ErrIO path))
      else (w\<lparr>files := (files w)(path \<mapsto> content)\<rparr>, None))"

definition Rename :: "world \<Rightarrow> string \<Rightarrow> string \<Rightarrow> world \<times> error option" where
  "Rename w oldpath newpath =
     (case files w oldpath of
        None \<Rightarrow> (w, Some (ErrIO oldpath))
      | Some content \<Rightarrow>
          if unwritable w newpath then (w, Some (ErrIO newpath))
          else (w\<lparr>files := ((files w)(oldpath := None))(newpath \<mapsto> content)\<rparr>, None))"

definition os_Stat :: "world \<Rightarrow> string \<Rightarrow> error + int" where
  "os_Stat w path =
     (case files w path of None \<Rightarrow> Inl (ErrIO path) | Some content \<Rightarrow> Inr (int (length content)))"

definition saveManifest :: "lib \<Rightarrow> world \<Rightarrow> string \<Rightarrow> manifest \<Rightarrow> world \<times> error option" where
  "saveManifest L w dir man =
     (let content = json_marshal L man;
          tmp = filepath_Join dir ''manifest.json.tmp''
      in case WriteFile w tmp content of
           (w1, Some err) \<Rightarrow> (w1, Some err)
         | (w1, None) \<Rightarrow>
             (case Rename w1 tmp (filepath_Join dir ''manifest.json'') of
                (w2, Some err) \<Rightarrow> (w2, Some err)
              | (w2, None) \<Rightarrow>
                  WriteFile w2 (filepath_Join dir ''manifest.json.sha256'') (sha256_hex L content)))"

fun verifyChunks_loop :: "lib \<Rightarrow> world \<Rightarrow> chunkMeta list \<Rightarrow> error option" where
  "verifyChunks_loop L w [] = None"
| "verifyChunks_loop L w (ch # chs) =
     (case hashFile L w (Path ch) of
        Inl err \<Rightarrow> Some (ErrHashChunk (Path ch) err)
      | Inr hash \<Rightarrow>
          if hash \<noteq> Hash ch then Some (ErrVerifyMismatch (Path ch) (Hash ch) hash)
          else verifyChunks_loop L w chs)"

definition verifyChunks :: "lib \<Rightarrow> world \<Rightarrow> manifest \<Rightarrow> error option" where
  "verifyChunks L w man = verifyChunks_loop L w (man_Chunks man)"

subsection \<open>Temporary directories and formatting\<close>

text \<open>
  \<open>fmt_d\<close> is \<open>%d\<close> and \<open>fmt_05d\<close> is \<open>%05d\<close>, on the numbers the package prints (which are not
  negative). \<open>os.MkdirTemp(dir, pattern)\<close> creates a fresh directory under \<open>dir\<close>, which must
  exist, named by the pattern and a suffix no earlier call has used. \<open>os.RemoveAll\<close> removes
  the directory and everything below it.
\<close>

definition digit_char :: "nat \<Rightarrow> char" where
  "digit_char d = char_of (48 + d)"

function fmt_d :: "nat \<Rightarrow> string" where
  "fmt_d n = (if n < 10 then [digit_char n] else fmt_d (n div 10) @ [digit_char (n mod 10)])"
  by pat_completeness auto

termination
  by (relation "measure (\<lambda>n. n)") auto

declare fmt_d.simps [simp del]

definition fmt_05d :: "int \<Rightarrow> string" where
  "fmt_05d i = (let s = fmt_d (nat i) in replicate (5 - length s) (CHR ''0'') @ s)"

definition MkdirTemp :: "world \<Rightarrow> string \<Rightarrow> string \<Rightarrow> world \<times> (error + string)" where
  "MkdirTemp w dir pattern =
     (let name = filepath_Join dir (pattern @ fmt_d (tmp_serial w))
      in if dir \<notin> set (dirs w) \<or> unwritable w name then (w, Inl (ErrIO name))
         else (w\<lparr>dirs := name # dirs w, tmp_serial := Suc (tmp_serial w)\<rparr>, Inr name))"

definition below :: "string \<Rightarrow> string \<Rightarrow> bool" where
  "below dir path \<longleftrightarrow> path = dir \<or> take (Suc (length dir)) path = dir @ ''/''"

definition RemoveAll :: "world \<Rightarrow> string \<Rightarrow> world" where
  "RemoveAll w dir =
     w\<lparr>files := (\<lambda>p. if below dir p then None else files w p),
       dirs := filter (\<lambda>d. \<not> below dir d) (dirs w)\<rparr>"

subsection \<open>\<open>runScheme\<close>\<close>

text \<open>
  \<^verbatim>\<open>
  func runScheme(ctx context.Context, scheme string, cfg Config) (Result, error) {
      gen, err := generatorFor(scheme)
      if err != nil { return Result{}, err }
      baseDir := cfg.TempDir
      if baseDir == "" {
          cwd, err := os.Getwd()
          if err != nil { return Result{}, fmt.Errorf("get current directory: %w", err) }
          baseDir = filepath.Join(cwd, "tmp")
          if err := os.MkdirAll(baseDir, 0o755); err != nil { return Result{}, fmt.Errorf("create tmp directory: %w", err) }
      }
      tempDir, err := os.MkdirTemp(baseDir, fmt.Sprintf("uidstress-%s-", scheme))
      if err != nil { return Result{}, fmt.Errorf("create temp dir: %w", err) }
      if !cfg.KeepTempData { defer os.RemoveAll(tempDir) }

      estimatedBytes := cfg.Scale * cfg.ApproxBytesPerID
      if err := ensureDisk(tempDir, estimatedBytes, cfg.DiskSafetyFactor); err != nil { return Result{}, err }
      man := &manifest{Scheme: scheme, Scale: cfg.Scale, ChunkSize: cfg.ChunkSize,
                       ApproxBytesPerID: cfg.ApproxBytesPerID, CreatedAt: time.Now()}
      var ( totalGenerated int64; totalUniqueSum int64; chunkIndex int )

      for totalGenerated < cfg.Scale {
          select { case <-ctx.Done(): return Result{}, ctx.Err()  default: }
          chunkTarget := minInt64(cfg.ChunkSize, cfg.Scale-totalGenerated)
          if err := ensureMemory(cfg, chunkTarget); err != nil { return Result{}, err }
          if chunkTarget > int64(math.MaxInt) { return Result{}, fmt.Errorf("chunk size %d exceeds ...", chunkTarget) }
          chunkIDs := make([]string, 0, int(chunkTarget))
          for int64(len(chunkIDs)) < chunkTarget { chunkIDs = append(chunkIDs, gen()) }
          sort.Strings(chunkIDs)
          unique := dedupeSorted(chunkIDs)
          chunkHash := hashStrings(unique)
          chunkPath := filepath.Join(tempDir, fmt.Sprintf("%s-chunk-%05d.dat", scheme, chunkIndex))
          if err := writeChunkFile(chunkPath, unique); err != nil { return Result{}, err }
          fileHash, err := hashFile(chunkPath)
          if err != nil { return Result{}, err }
          if fileHash != chunkHash { return Result{}, fmt.Errorf("chunk hash mismatch: mem=%s file=%s", ...) }
          info, err := os.Stat(chunkPath)
          if err != nil { return Result{}, err }
          meta := chunkMeta{Index: chunkIndex, Path: chunkPath, UniqueCount: int64(len(unique)),
                            OriginalCount: chunkTarget, Hash: chunkHash, SizeBytes: info.Size(), ...}
          man.Chunks = append(man.Chunks, meta)
          if err := saveManifest(tempDir, man); err != nil { return Result{}, err }
          totalGenerated += chunkTarget
          totalUniqueSum += int64(len(unique))
          chunkIndex++
          if cfg.Verbose && totalGenerated%cfg.LogInterval == 0 { fmt.Printf(...) }
      }

      if err := verifyChunks(man); err != nil { return Result{}, err }
      unique, duplicates, err := mergeChunks(ctx, man, cfg.Verbose, cfg.LogInterval)
      if err != nil { return Result{}, err }
      if totalUniqueSum != unique+duplicates {
          return Result{}, fmt.Errorf("inconsistent counts: chunk unique sum=%d, merged unique=%d, duplicates=%d", ...)
      }
      return Result{Scheme: scheme, Chunks: len(man.Chunks), Generated: totalGenerated,
                    ChunkUnique: totalUniqueSum, Unique: unique, Duplicates: duplicates,
                    ManifestPath: filepath.Join(tempDir, "manifest.json"), OutputDir: tempDir}, nil
  }
  \<close>
  The function is embedded in parts, in the order of the source:
  \<^item> \<open>runScheme_chunk\<close>: the body of one iteration of the chunk loop, after the poll of the
    context; it returns the manifest with the new chunk record, \<open>chunkTarget\<close> and
    \<open>len(unique)\<close>. \<open>make\<close> with a negative capacity panics. \<open>sort.Strings\<close> is \<^const>\<open>sort\<close>.
  \<^item> \<open>runScheme_loop\<close>: the chunk loop, on its variables. With a chunk size of zero the loop
    of the source does not end, so the function is partial: not returning is \<open>None\<close>.
  \<^item> \<open>runScheme_finish\<close>: the statements after the loop (verification, merge, consistency
    check, result).
  \<^item> \<open>runScheme_work\<close>: the statements after the \<open>defer\<close>, and \<open>runScheme\<close> itself, which runs
    the deferred \<open>os.RemoveAll\<close> on every return after it.
  \<open>math.MaxInt\<close> is that of a 64-bit platform. The progress line is not modelled. The sums
  \<open>totalGenerated + chunkTarget\<close> and \<open>cfg.Scale - totalGenerated\<close> stay between \<open>0\<close> and
  \<open>cfg.Scale\<close>, so they do not overflow.
\<close>

definition minInt64 :: "int \<Rightarrow> int \<Rightarrow> int" where
  "minInt64 a b = (if a < b then a else b)"

definition runScheme_chunk ::
  "lib \<Rightarrow> generator \<Rightarrow> string \<Rightarrow> string \<Rightarrow> Config \<Rightarrow> world \<Rightarrow> manifest \<Rightarrow> int \<Rightarrow> int \<Rightarrow>
   world \<times> (error + manifest \<times> int \<times> int)"
where
  "runScheme_chunk L g scheme tempDir cfg w man totalGenerated chunkIndex =
     (let chunkTarget = minInt64 (ChunkSize cfg) (Scale cfg - totalGenerated)
      in case ensureMemory L w cfg chunkTarget of
           Some err \<Rightarrow> (w, Inl err)
         | None \<Rightarrow>
             if chunkTarget > maxInt then (w, Inl (ErrSliceCapacity chunkTarget))
             else if chunkTarget < 0 then (w, Inl PanicMakeslice)
             else (case gen_loop w g chunkTarget [] of
                     (chunkIDs, w1) \<Rightarrow>
                       let unique = dedupeSorted (sort chunkIDs);
                           chunkHash = hashStrings L unique;
                           chunkPath = filepath_Join tempDir
                             (scheme @ ''-chunk-'' @ fmt_05d chunkIndex @ ''.dat'')
                       in case writeChunkFile w1 chunkPath unique of
                            (w2, Some err) \<Rightarrow> (w2, Inl err)
                          | (w2, None) \<Rightarrow>
                              (case hashFile L w2 chunkPath of
                                 Inl err \<Rightarrow> (w2, Inl err)
                               | Inr fileHash \<Rightarrow>
                                   if fileHash \<noteq> chunkHash
                                   then (w2, Inl (ErrChunkHashMismatch chunkHash fileHash))
                                   else (case os_Stat w2 chunkPath of
                                           Inl err \<Rightarrow> (w2, Inl err)
                                         | Inr fileSize \<Rightarrow>
                                             let m = \<lparr>Index = chunkIndex, Path = chunkPath,
                                                       UniqueCount = int (length unique),
                                                       OriginalCount = chunkTarget,
                                                       Hash = chunkHash, SizeBytes = fileSize\<rparr>;
                                                 man1 = man\<lparr>man_Chunks := man_Chunks man @ [m]\<rparr>
                                             in case saveManifest L w2 tempDir man1 of
                                                  (w3, Some err) \<Rightarrow> (w3, Inl err)
                                                | (w3, None) \<Rightarrow>
                                                    (w3, Inr (man1, chunkTarget,
                                                              int (length unique)))))))"

partial_function (option) runScheme_loop ::
  "lib \<Rightarrow> generator \<Rightarrow> string \<Rightarrow> string \<Rightarrow> Config \<Rightarrow> world \<Rightarrow> manifest \<Rightarrow> int \<Rightarrow> int \<Rightarrow> int \<Rightarrow>
   (world \<times> (error + manifest \<times> int \<times> int \<times> int)) option"
where
  "runScheme_loop L g scheme tempDir cfg w man totalGenerated totalUniqueSum chunkIndex =
     (if totalGenerated < Scale cfg then
        (case ctx_done (ctx w) of
           (done, c') \<Rightarrow>
             if done then Some (w\<lparr>ctx := c'\<rparr>, Inl ErrCanceled)
             else (case runScheme_chunk L g scheme tempDir cfg (w\<lparr>ctx := c'\<rparr>) man
                          totalGenerated chunkIndex of
                     (w1, Inl err) \<Rightarrow> Some (w1, Inl err)
                   | (w1, Inr (man1, chunkTarget, uniqueLen)) \<Rightarrow>
                       runScheme_loop L g scheme tempDir cfg w1 man1
                         (totalGenerated + chunkTarget) (totalUniqueSum + uniqueLen)
                         (chunkIndex + 1)))
      else Some (w, Inr (man, totalGenerated, totalUniqueSum, chunkIndex)))"

declare runScheme_loop.simps [code]

definition runScheme_finish ::
  "lib \<Rightarrow> string \<Rightarrow> string \<Rightarrow> world \<Rightarrow> manifest \<Rightarrow> int \<Rightarrow> int \<Rightarrow> world \<times> (error + Result)"
where
  "runScheme_finish L scheme tempDir w man totalGenerated totalUniqueSum =
     (case verifyChunks L w man of
        Some err \<Rightarrow> (w, Inl err)
      | None \<Rightarrow>
          (case mergeChunks w man of
             (w1, Inl err) \<Rightarrow> (w1, Inl err)
           | (w1, Inr (unique, duplicates)) \<Rightarrow>
               if totalUniqueSum \<noteq> unique + duplicates
               then (w1, Inl (ErrInconsistent totalUniqueSum unique duplicates))
               else (w1, Inr \<lparr>res_Scheme = scheme,
                               res_Chunks = int (length (man_Chunks man)),
                               Generated = totalGenerated,
                               ChunkUnique = totalUniqueSum,
                               Unique = unique,
                               Duplicates = duplicates,
                               ManifestPath = filepath_Join tempDir ''manifest.json'',
                               OutputDir = tempDir\<rparr>)))"

definition runScheme_work ::
  "lib \<Rightarrow> generator \<Rightarrow> string \<Rightarrow> string \<Rightarrow> Config \<Rightarrow> world \<Rightarrow> (world \<times> (error + Result)) option"
where
  "runScheme_work L g scheme tempDir cfg w =
     (let estimatedBytes = int64 (Scale cfg * ApproxBytesPerID cfg)
      in case ensureDisk L w tempDir estimatedBytes (DiskSafetyFactor cfg) of
           Some err \<Rightarrow> Some (w, Inl err)
         | None \<Rightarrow>
             (let man = \<lparr>man_Scheme = scheme, man_Scale = Scale cfg, man_ChunkSize = ChunkSize cfg,
                         man_ApproxBytesPerID = ApproxBytesPerID cfg, man_Chunks = []\<rparr>
              in case runScheme_loop L g scheme tempDir cfg w man 0 0 0 of
                   None \<Rightarrow> None
                 | Some (w1, Inl err) \<Rightarrow> Some (w1, Inl err)
                 | Some (w1, Inr (man1, totalGenerated, totalUniqueSum, chunkIndex)) \<Rightarrow>
                     Some (runScheme_finish L scheme tempDir w1 man1 totalGenerated totalUniqueSum)))"

definition runScheme :: "lib \<Rightarrow> world \<Rightarrow> string \<Rightarrow> Config \<Rightarrow> (world \<times> (error + Result)) option" where
  "runScheme L w scheme cfg =
     (case generatorFor L scheme of
        Inl err \<Rightarrow> Some (w, Inl err)
      | Inr g \<Rightarrow>
          (case (if TempDir cfg = []
                 then (case cwd w of
                         None \<Rightarrow> (w, Inl ErrGetwd)
                       | Some d \<Rightarrow>
                           (case MkdirAll w (filepath_Join d ''tmp'') of
                              (w1, Some err) \<Rightarrow> (w1, Inl ErrCreateTmp)
                            | (w1, None) \<Rightarrow> (w1, Inr (filepath_Join d ''tmp''))))
                 else (w, Inr (TempDir cfg))) of
             (w1, Inl err) \<Rightarrow> Some (w1, Inl err)
           | (w1, Inr baseDir) \<Rightarrow>
               (case MkdirTemp w1 baseDir (''uidstress-'' @ scheme @ ''-'') of
                  (w2, Inl err) \<Rightarrow> Some (w2, Inl ErrCreateTempDir)
                | (w2, Inr tempDir) \<Rightarrow>
                    (case runScheme_work L g scheme tempDir cfg w2 of
                       None \<Rightarrow> None
                     | Some (w3, res) \<Rightarrow>
                         Some (if \<not> KeepTempData cfg then RemoveAll w3 tempDir else w3, res)))))"

subsection \<open>\<open>Run\<close>\<close>

text \<open>
  \<^verbatim>\<open>
  func Run(ctx context.Context, cfg Config) ([]Result, error) {
      if len(cfg.Schemes) == 0 { cfg.Schemes = []string{"nanoid16", "ulid", "ksuid"} }
      if cfg.Scale <= 0 { return nil, fmt.Errorf("scale must be > 0") }
      if cfg.ChunkSize <= 0 || cfg.ChunkSize > cfg.Scale { cfg.ChunkSize = minInt64(cfg.Scale, 1_000_000) }
      if cfg.Workers <= 0 { cfg.Workers = runtime.NumCPU() }
      if cfg.ApproxBytesPerID <= 0 { cfg.ApproxBytesPerID = defaultApproxBytesPerID }
      if cfg.LogInterval <= 0 { cfg.LogInterval = 1_000_000 }
      if cfg.DiskSafetyFactor <= 0 { cfg.DiskSafetyFactor = 1.25 }
      results := make([]Result, 0, len(cfg.Schemes))
      for _, scheme := range cfg.Schemes {
          select { case <-ctx.Done(): return nil, ctx.Err()  default: }
          start := time.Now()
          res, err := runScheme(ctx, scheme, cfg)
          if err != nil { return nil, err }
          res.Duration = time.Since(start)
          results = append(results, res)
      }
      return results, nil
  }
  \<close>
  \<open>Run_defaults\<close> is the configuration after the assignments of defaults, and \<open>Run_loop\<close> the
  loop over the schemes.
\<close>

definition defaultApproxBytesPerID :: int where
  "defaultApproxBytesPerID = 64"

definition Run_defaults :: "world \<Rightarrow> Config \<Rightarrow> Config" where
  "Run_defaults w cfg =
     (let cfg = (if ChunkSize cfg \<le> 0 \<or> ChunkSize cfg > Scale cfg
                 then cfg\<lparr>ChunkSize := minInt64 (Scale cfg) 1000000\<rparr> else cfg);
          cfg = (if Workers cfg \<le> 0 then cfg\<lparr>Workers := num_cpu w\<rparr> else cfg);
          cfg = (if ApproxBytesPerID cfg \<le> 0 then cfg\<lparr>ApproxBytesPerID := defaultApproxBytesPerID\<rparr> else cfg);
          cfg = (if LogInterval cfg \<le> 0 then cfg\<lparr>LogInterval := 1000000\<rparr> else cfg);
          cfg = (if DiskSafetyFactor cfg \<le> 0 then cfg\<lparr>DiskSafetyFactor := 1.25\<rparr> else cfg)
      in cfg)"

fun Run_loop ::
  "lib \<Rightarrow> world \<Rightarrow> Config \<Rightarrow> string list \<Rightarrow> Result list \<Rightarrow> (world \<times> (error + Result list)) option"
where
  "Run_loop L w cfg [] results = Some (w, Inr results)"
| "Run_loop L w cfg (scheme # schemes) results =
     (case ctx_done (ctx w) of
        (done, c') \<Rightarrow>
          if done then Some (w\<lparr>ctx := c'\<rparr>, Inl ErrCanceled)
          else (case runScheme L (w\<lparr>ctx := c'\<rparr>) scheme cfg of
                  None \<Rightarrow> None
                | Some (w1, Inl err) \<Rightarrow> Some (w1, Inl err)
                | Some (w1, Inr res) \<Rightarrow> Run_loop L w1 cfg schemes (results @ [res])))"

definition Run :: "lib \<Rightarrow> world \<Rightarrow> Config \<Rightarrow> (world \<times> (error + Result list)) option" where
  "Run L w cfg0 =
     (let cfg = (if length (Schemes cfg0) = 0
                 then cfg0\<lparr>Schemes := [''nanoid16'', ''ulid'', ''ksuid'']\<rparr> else cfg0)
      in if Scale cfg \<le> 0 then Some (w, Inl ErrScale)
         else (let cfg = Run_defaults w cfg
               in Run_loop L w cfg (Schemes cfg) []))"

subsection \<open>Concrete inputs\<close>

text \<open>
  An environment and inputs on which the definitions are evaluated: a toy digest (the bytes
  themselves), exact \<open>float64\<close> arithmetic, the generator sequence
  \<open>5,3,5,1 | 2,4,2,9 | 8,8\<close>, one gibibyte of memory and of disk.
\<close>

definition demo_lib :: lib where
  "demo_lib = \<lparr>sha256_hex = (\<lambda>bs. bs), json_marshal = (\<lambda>m. man_Scheme m),
     float64_round = (\<lambda>x. x), to_lower = (\<lambda>s. s)\<rparr>"

definition demo_ids :: "string list" where
  "demo_ids = [''5'', ''3'', ''5'', ''1'', ''2'', ''4'', ''2'', ''9'', ''8'', ''8'']"

definition demo_world :: world where
  "demo_world = \<lparr>files = Map.empty, dirs = [''/t''], unwritable = (\<lambda>p. False), open_files = [],
     cwd = Some ''/work'', tmp_serial = 0, mem_available = Some 1073741824,
     disk_free = Some 1073741824,
     id_source = (\<lambda>g n. if n < length demo_ids then demo_ids ! n else ''z''),
     drawn = 0, ctx = None, num_cpu = 4\<rparr>"

definition demo_cfg :: Config where
  "demo_cfg = \<lparr>Schemes = [''ulid''], Scale = 10, ChunkSize = 4, Workers = 0, TempDir = ''/t'',
     KeepTempData = True, LogInterval = 0, Verbose = False, ApproxBytesPerID = 64,
     MemGuardMB = 512, DiskSafetyFactor = 1.25\<rparr>"

text \<open>
  Two chunk files that share the value \<open>X\<close>: \<open>a\<close> holds \<open>X, Y\<close> and \<open>b\<close> holds \<open>X\<close>; \<open>e\<close> is
  empty. A chunk record of \<open>demo_manifest\<close> carries the digest of its file in \<open>demo_chunks\<close>.
  In \<open>demo_tampered\<close> one byte of \<open>a\<close> has changed since.
\<close>

definition demo_chunks :: world where
  "demo_chunks = demo_world\<lparr>files :=
     [''a'' \<mapsto> [CHR ''X'', newline, CHR ''Y'', newline], ''b'' \<mapsto> [CHR ''X'', newline],
      ''e'' \<mapsto> []]\<rparr>"

definition demo_meta :: "string \<Rightarrow> chunkMeta" where
  "demo_meta p = \<lparr>Index = 0, Path = p, UniqueCount = 0, OriginalCount = 0,
     Hash = (case files demo_chunks p of None \<Rightarrow> [] | Some content \<Rightarrow> sha256_hex demo_lib content),
     SizeBytes = 0\<rparr>"

definition demo_manifest :: "string list \<Rightarrow> manifest" where
  "demo_manifest ps = \<lparr>man_Scheme = ''ulid'', man_Scale = 3, man_ChunkSize = 2,
     man_ApproxBytesPerID = 64, man_Chunks = map demo_meta ps\<rparr>"

definition demo_tampered :: world where
  "demo_tampered = demo_chunks\<lparr>files :=
     (files demo_chunks)(''a'' \<mapsto> [CHR ''X'', newline, CHR ''Z'', newline])\<rparr>"

definition demo_result :: Result where
  "demo_result = \<lparr>res_Scheme = ''ulid'', res_Chunks = 3, Generated = 10, ChunkUnique = 7,
     Unique = 7, Duplicates = 0, ManifestPath = ''/t/uidstress-ulid-0/manifest.json'',
     OutputDir = ''/t/uidstress-ulid-0''\<rparr>"

text \<open>
  A configuration whose estimate \<open>chunkTarget \<times> ApproxBytesPerID\<close> leaves the range of
  \<open>int64\<close>, and a world with a single byte of memory available.
\<close>

definition demo_overflow_cfg :: Config where
  "demo_overflow_cfg = demo_cfg\<lparr>Scale := 4, ApproxBytesPerID := 4611686018427387904, MemGuardMB := 0\<rparr>"

definition demo_low_memory :: world where
  "demo_low_memory = demo_world\<lparr>mem_available := Some 1\<rparr>"

section \<open>Properties\<close>

subsection \<open>\<open>dedupeSorted\<close> is \<open>remdups_adj\<close>\<close>

lemma dedupe_loop_spec:
  "writeIdx \<le> i \<Longrightarrow> i \<le> length vals \<Longrightarrow> 0 < writeIdx \<Longrightarrow>
   dedupe_loop vals writeIdx prev i = (vals', writeIdx') \<Longrightarrow>
   take writeIdx' vals' = take writeIdx vals @ tl (remdups_adj (prev # drop i vals))"
proof (induction vals writeIdx prev i arbitrary: vals' writeIdx' rule: dedupe_loop.induct)
  case (1 vals writeIdx prev i)
  show ?case
  proof (cases "i < length vals")
    case False
    then have "dedupe_loop vals writeIdx prev i = (vals, writeIdx)"
      by (subst dedupe_loop.simps) simp
    with "1.prems" False show ?thesis
      by simp
  next
    case lt: True
    then have dr: "drop i vals = vals ! i # drop (Suc i) vals"
      by (simp add: Cons_nth_drop_Suc)
    show ?thesis
    proof (cases "vals ! i \<noteq> prev")
      case True
      let ?vs = "vals[writeIdx := vals ! i]"
      from "1.prems" lt True
      have run: "dedupe_loop ?vs (Suc writeIdx) (vals ! i) (Suc i) = (vals', writeIdx')"
        by (simp add: dedupe_loop.simps [of vals writeIdx prev i])
      have "take writeIdx' vals' =
              take (Suc writeIdx) ?vs @ tl (remdups_adj (vals ! i # drop (Suc i) ?vs))"
        using "1.IH"(1) [OF lt True _ _ _ run] "1.prems" lt by simp
      moreover have "drop (Suc i) ?vs = drop (Suc i) vals"
        using "1.prems" by simp
      moreover have "take (Suc writeIdx) ?vs = take writeIdx vals @ [vals ! i]"
        using "1.prems" lt by (simp add: take_Suc_conv_app_nth)
      ultimately show ?thesis
        using True dr by simp
    next
      case False
      from "1.prems" lt False
      have run: "dedupe_loop vals writeIdx prev (Suc i) = (vals', writeIdx')"
        by (simp add: dedupe_loop.simps [of vals writeIdx prev i])
      have "take writeIdx' vals' =
              take writeIdx vals @ tl (remdups_adj (prev # drop (Suc i) vals))"
        using "1.IH"(2) [OF lt _ _ _ _ run] False "1.prems" lt by simp
      then show ?thesis
        using False dr by simp
    qed
  qed
qed

lemma dedupeSorted_remdups_adj: "dedupeSorted vals = remdups_adj vals"
proof (cases vals)
  case Nil
  then show ?thesis by (simp add: dedupeSorted_def)
next
  case (Cons v vs)
  obtain vals' writeIdx where
    run: "dedupe_loop vals 1 (vals ! 0) 1 = (vals', writeIdx)"
    by (cases "dedupe_loop vals 1 (vals ! 0) 1")
  have "take writeIdx vals' = take 1 vals @ tl (remdups_adj (vals ! 0 # drop 1 vals))"
    using dedupe_loop_spec [OF _ _ _ run] Cons by simp
  then have "take writeIdx vals' = remdups_adj vals"
    using Cons by simp
  then show ?thesis
    using run Cons by (simp add: dedupeSorted_def)
qed

text \<open>
  C5. For every slice of strings sorted in non-decreasing order, \<open>dedupeSorted\<close> returns a
  slice that is still sorted in non-decreasing order, has no two adjacent equal values, and
  has exactly the distinct values of the input.
\<close>

theorem dedupeSorted_sorted_lossless:
  assumes "sorted vals"
  shows "sorted (dedupeSorted vals) \<and> distinct_adj (dedupeSorted vals) \<and>
     set (dedupeSorted vals) = set vals"
proof -
  have eq: "dedupeSorted vals = remdups_adj vals"
    by (rule dedupeSorted_remdups_adj)
  have "sorted (remdups_adj vals)"
    using assms by simp
  moreover have "distinct_adj (remdups_adj vals)"
    by (rule distinct_adj_remdups_adj)
  moreover have "set (remdups_adj vals) = set vals"
    by (rule remdups_adj_set)
  ultimately show ?thesis
    unfolding eq by blast
qed

theorem dedupeSorted_sorted_lossless_witness:
  "sorted [''1'', ''3'', ''5'', ''5''] \<and>
   sorted (dedupeSorted [''1'', ''3'', ''5'', ''5'']) \<and>
   distinct_adj (dedupeSorted [''1'', ''3'', ''5'', ''5'']) \<and>
   set (dedupeSorted [''1'', ''3'', ''5'', ''5'']) = set [''1'', ''3'', ''5'', ''5''] \<and>
   dedupeSorted [''1'', ''3'', ''5'', ''5''] = [''1'', ''3'', ''5'']"
proof -
  have s: "sorted [''1'', ''3'', ''5'', ''5'']"
    by code_simp
  have e: "dedupeSorted [''1'', ''3'', ''5'', ''5''] = [''1'', ''3'', ''5'']"
    by code_simp
  from dedupeSorted_sorted_lossless [OF s] s e show ?thesis
    by simp
qed

subsection \<open>The round trip of a chunk's hash\<close>

text \<open>
  The hasher of \<open>hashStrings\<close> and the writer of \<open>writeChunkFile\<close> receive the same bytes: every
  value followed by a newline.
\<close>

lemma hashStrings_loop_bytes:
  "hashStrings_loop h vals = h @ concat (map (\<lambda>v. v @ [newline]) vals)"
  by (induction vals arbitrary: h) (simp_all add: hash_Write_def)

lemma writeChunkFile_loop_bytes:
  "writeChunkFile_loop writer vals = writer @ concat (map (\<lambda>v. v @ [newline]) vals)"
  by (induction vals arbitrary: writer) (simp_all add: WriteString_def WriteByte_def)

lemma writeChunkFile_content:
  "writeChunkFile w path vals = (w', None) \<Longrightarrow>
   files w' path = Some (concat (map (\<lambda>v. v @ [newline]) vals))"
  by (auto simp: writeChunkFile_def MkdirAll_def writeChunkFile_loop_bytes
      split: if_splits)

text \<open>
  C3. For every list of identifier strings, writing the list to a chunk file with
  \<open>writeChunkFile\<close> and then re-reading and hashing the persisted bytes with \<open>hashFile\<close> yields
  exactly the in-memory content hash \<open>hashStrings\<close> computes over the same list. (When the
  write itself fails there is no persisted chunk; the storage returns what was written.)
\<close>

theorem hash_round_trip:
  assumes "writeChunkFile w path vals = (w', None)"
  shows "hashFile L w' path = Inr (hashStrings L vals)"
proof -
  let ?bytes = "concat (map (\<lambda>v. v @ [newline]) vals)"
  have "files w' path = Some ?bytes"
    using assms by (rule writeChunkFile_content)
  then have "hashFile L w' path = Inr (sha256_hex L ?bytes)"
    by (simp add: hashFile_def hash_Write_def)
  moreover have "hashStrings L vals = sha256_hex L ?bytes"
    by (simp add: hashStrings_def hashStrings_loop_bytes)
  ultimately show ?thesis by simp
qed

theorem hash_round_trip_witness:
  "snd (writeChunkFile demo_world ''/t/c.dat'' [''1'', ''3'', ''5'']) = None \<and>
   hashFile demo_lib (fst (writeChunkFile demo_world ''/t/c.dat'' [''1'', ''3'', ''5''])) ''/t/c.dat'' =
     Inr (hashStrings demo_lib [''1'', ''3'', ''5''])"
proof -
  have s: "snd (writeChunkFile demo_world ''/t/c.dat'' [''1'', ''3'', ''5'']) = None"
    by code_simp
  then have "writeChunkFile demo_world ''/t/c.dat'' [''1'', ''3'', ''5''] =
      (fst (writeChunkFile demo_world ''/t/c.dat'' [''1'', ''3'', ''5'']), None)"
    by (simp add: prod_eq_iff)
  from hash_round_trip [OF this, of demo_lib] s show ?thesis by simp
qed

subsection \<open>The heap invariant of \<open>container/heap\<close>\<close>

text \<open>
  \<open>heap_from h m n\<close>: among the first \<open>n\<close> entries, every entry whose parent has an index of
  \<open>m\<close> or more has a key that is not below its parent's. \<open>down_pre\<close> is what holds before
  \<open>down h i n\<close>: the same, except below \<open>i\<close>, whose children are bounded by the parent of \<open>i\<close>
  instead.
\<close>

definition heap_from :: "mergeHeap \<Rightarrow> nat \<Rightarrow> nat \<Rightarrow> bool" where
  "heap_from h m n \<longleftrightarrow>
     (\<forall>c. 0 < c \<and> c < n \<and> m \<le> (c - 1) div 2 \<longrightarrow> key (h ! ((c - 1) div 2)) \<le> key (h ! c))"

definition down_pre :: "mergeHeap \<Rightarrow> nat \<Rightarrow> nat \<Rightarrow> nat \<Rightarrow> bool" where
  "down_pre h m n i \<longleftrightarrow>
     (\<forall>c. 0 < c \<and> c < n \<and> m \<le> (c - 1) div 2 \<and> (c - 1) div 2 \<noteq> i \<longrightarrow>
          key (h ! ((c - 1) div 2)) \<le> key (h ! c)) \<and>
     (\<forall>c. 0 < c \<and> c < n \<and> (c - 1) div 2 = i \<and> 0 < i \<and> m \<le> (i - 1) div 2 \<longrightarrow>
          key (h ! ((i - 1) div 2)) \<le> key (h ! c))"

lemma parent_eq_iff:
  "0 < c \<Longrightarrow> (c - 1) div 2 = i \<longleftrightarrow> c = 2 * i + 1 \<or> c = 2 * i + (2::nat)"
  by presburger

lemma smaller_child_le:
  assumes "\<not> n \<le> 2 * i + 1" "0 < c" "c < n" "(c - 1) div 2 = i"
  shows "key (h ! smaller_child h i n) \<le> key (h ! c)"
proof -
  from assms(2,4) have "c = 2 * i + 1 \<or> c = 2 * i + 2" by presburger
  then show ?thesis
    using assms(3) by (auto simp: smaller_child_def Less_def)
qed

lemma parent_smaller_child: "(smaller_child h i n - 1) div 2 = i"
  by (simp add: smaller_child_def)

lemma down_heap:
  "down_pre h m n i \<Longrightarrow> n \<le> length h \<Longrightarrow> heap_from (down h i n) m n"
proof (induction h i n rule: down_induct)
  case (step h i n)
  let ?j = "smaller_child h i n"
  show ?case
  proof (cases "\<not> n \<le> 2 * i + 1 \<and> Less h ?j i")
    case False
    then have stop: "down h i n = h" by (subst down_unfold) auto
    have "key (h ! ((c - 1) div 2)) \<le> key (h ! c)"
      if c: "0 < c" "c < n" "m \<le> (c - 1) div 2" for c
    proof (cases "(c - 1) div 2 = i")
      case ne: False
      with step.prems(1) c show ?thesis by (simp add: down_pre_def)
    next
      case True
      then have "\<not> n \<le> 2 * i + 1" using c by presburger
      with False have "key (h ! i) \<le> key (h ! ?j)" by (simp add: Less_def)
      also have "\<dots> \<le> key (h ! c)"
        using smaller_child_le [OF \<open>\<not> n \<le> 2 * i + 1\<close> c(1,2) True] .
      finally show ?thesis using True by simp
    qed
    then show ?thesis by (simp add: stop heap_from_def)
  next
    case True
    then have a: "\<not> n \<le> 2 * i + 1" and b: "Less h ?j i" by auto
    have jn: "?j < n" using a by (rule smaller_child_lt)
    have ij: "i < ?j" by (simp add: smaller_child_def)
    have pj: "(?j - 1) div 2 = i" by (rule parent_smaller_child)
    have il: "i < length h" "?j < length h" using jn ij step.prems(2) by auto
    let ?h = "Swap h i ?j"
    have nth: "?h ! k = (if k = ?j then h ! i else if k = i then h ! ?j else h ! k)" for k
      using il by (rule nth_Swap)
    have kji: "key (h ! ?j) \<le> key (h ! i)" using b by (simp add: Less_def)
    have pre: "down_pre ?h m n ?j"
      unfolding down_pre_def
    proof (intro conjI allI impI)
      fix c assume c: "0 < c \<and> c < n \<and> m \<le> (c - 1) div 2 \<and> (c - 1) div 2 \<noteq> ?j"
      let ?p = "(c - 1) div 2"
      have pc: "?p < c" using c by auto
      show "key (?h ! ?p) \<le> key (?h ! c)"
      proof (cases "?p = i")
        case True
        have "key (h ! ?j) \<le> key (h ! c)"
          using smaller_child_le [OF a _ _ True] c by simp
        then show ?thesis
          using True kji pc by (auto simp: nth)
      next
        case False
        then have cj: "c \<noteq> ?j" using pj by auto
        show ?thesis
        proof (cases "c = i")
          case True
          then have "0 < i" "m \<le> (i - 1) div 2" using c by auto
          with step.prems(1) jn pj have "key (h ! ((i - 1) div 2)) \<le> key (h ! ?j)"
            unfolding down_pre_def using ij by (metis (no_types, lifting) less_nat_zero_code not_gr_zero)
          then show ?thesis
            using True False c ij pc by (auto simp: nth)
        next
          case ci: False
          have "key (h ! ?p) \<le> key (h ! c)"
            using step.prems(1) c False by (simp add: down_pre_def)
          then show ?thesis
            using ci cj False c by (auto simp: nth)
        qed
      qed
    next
      fix c assume c: "0 < c \<and> c < n \<and> (c - 1) div 2 = ?j \<and> 0 < ?j \<and> m \<le> (?j - 1) div 2"
      then have mi: "m \<le> i" using pj by simp
      have jc: "?j < c" using c by auto
      have "key (h ! ?j) \<le> key (h ! c)"
        using step.prems(1) c mi ij unfolding down_pre_def
        by (metis (no_types, lifting) le_trans less_imp_le_nat nat_neq_iff)
      then show "key (?h ! ((?j - 1) div 2)) \<le> key (?h ! c)"
        using pj jc ij by (auto simp: nth)
    qed
    have "down h i n = down ?h ?j n"
      using a b by (subst down_unfold) simp
    then show ?thesis
      using step.IH [OF a b pre] step.prems(2) by simp
  qed
qed

definition is_heap :: "mergeHeap \<Rightarrow> bool" where
  "is_heap h \<longleftrightarrow> heap_from h 0 (length h)"

definition up_pre :: "mergeHeap \<Rightarrow> nat \<Rightarrow> bool" where
  "up_pre h j \<longleftrightarrow>
     (\<forall>c. 0 < c \<and> c < length h \<and> c \<noteq> j \<longrightarrow> key (h ! ((c - 1) div 2)) \<le> key (h ! c)) \<and>
     (\<forall>c. 0 < c \<and> c < length h \<and> (c - 1) div 2 = j \<and> 0 < j \<longrightarrow>
          key (h ! ((j - 1) div 2)) \<le> key (h ! c))"

lemma up_unfold:
  "up h j =
     (if (j - 1) div 2 = j \<or> \<not> Less h j ((j - 1) div 2) then h
      else up (Swap h ((j - 1) div 2) j) ((j - 1) div 2))"
  by (subst up.simps) (simp only: Let_def)

lemma up_induct [case_names step]:
  assumes "\<And>h j.
     ((j - 1) div 2 \<noteq> j \<Longrightarrow> Less h j ((j - 1) div 2) \<Longrightarrow>
        P (Swap h ((j - 1) div 2) j) ((j - 1) div 2)) \<Longrightarrow> P h j"
  shows "P h j"
proof (induction h j rule: up.induct)
  case (1 h j)
  show ?case
  proof (rule assms)
    assume a: "(j - 1) div 2 \<noteq> j" and b: "Less h j ((j - 1) div 2)"
    then have c: "\<not> ((j - 1) div 2 = j \<or> \<not> Less h j ((j - 1) div 2))" by simp
    show "P (Swap h ((j - 1) div 2) j) ((j - 1) div 2)"
      by (rule "1.IH" [OF refl c])
  qed
qed

lemma up_heap: "up_pre h j \<Longrightarrow> j < length h \<Longrightarrow> is_heap (up h j)"
proof (induction h j rule: up_induct)
  case (step h j)
  define i where "i = (j - 1) div 2"
  show ?case
  proof (cases "i \<noteq> j \<and> Less h j i")
    case False
    then have stop: "up h j = h" by (subst up_unfold) (auto simp: i_def)
    have "key (h ! ((c - 1) div 2)) \<le> key (h ! c)" if c: "0 < c" "c < length h" for c
    proof (cases "c = j")
      case True
      with c False have "\<not> Less h j i" by (auto simp: i_def)
      then show ?thesis using True by (simp add: Less_def i_def)
    next
      case ne: False
      with step.prems(1) c show ?thesis by (simp add: up_pre_def)
    qed
    then show ?thesis by (simp add: stop is_heap_def heap_from_def)
  next
    case True
    then have a: "i \<noteq> j" and b: "Less h j i" by auto
    have j0: "0 < j" using a by (cases j) (auto simp: i_def)
    have ij: "i < j" using j0 by (auto simp: i_def)
    have il: "i < length h" "j < length h" using ij step.prems(2) by auto
    define h' where "h' = Swap h i j"
    have nth: "h' ! k = (if k = j then h ! i else if k = i then h ! j else h ! k)" for k
      unfolding h'_def using il by (rule nth_Swap)
    have len: "length h' = length h" by (simp add: h'_def)
    have kji: "key (h ! j) < key (h ! i)" using b by (simp add: Less_def)
    have old: "key (h ! ((c - 1) div 2)) \<le> key (h ! c)" if "0 < c" "c < length h" "c \<noteq> j" for c
      using step.prems(1) that by (simp add: up_pre_def)
    have cross: "key (h ! i) \<le> key (h ! c)" if "0 < c" "c < length h" "(c - 1) div 2 = j" for c
      using step.prems(1) that j0 by (simp add: up_pre_def i_def)
    have pre: "up_pre h' i"
      unfolding up_pre_def
    proof (intro conjI allI impI)
      fix c assume c: "0 < c \<and> c < length h' \<and> c \<noteq> i"
      define p where "p = (c - 1) div 2"
      have pc: "p < c" using c by (auto simp: p_def)
      have goal: "key (h' ! p) \<le> key (h' ! c)"
      proof (cases "c = j")
        case True
        then have "p = i" by (simp add: p_def i_def)
        then show ?thesis using True kji ij by (simp add: nth)
      next
        case cj: False
        show ?thesis
        proof (cases "p = i")
          case True
          have "key (h ! i) \<le> key (h ! c)" using old [of c] c cj True by (simp add: p_def len)
          then show ?thesis using True kji c cj ij by (simp add: nth)
        next
          case pi: False
          show ?thesis
          proof (cases "p = j")
            case True
            have "key (h ! i) \<le> key (h ! c)" using cross [of c] c True by (simp add: p_def len)
            then show ?thesis using True c cj ij by (simp add: nth)
          next
            case False
            have "key (h ! p) \<le> key (h ! c)" using old [of c] c cj by (simp add: p_def len)
            then show ?thesis using False pi c cj by (simp add: nth)
          qed
        qed
      qed
      then show "key (h' ! ((c - 1) div 2)) \<le> key (h' ! c)" by (simp add: p_def)
    next
      fix c assume c: "0 < c \<and> c < length h' \<and> (c - 1) div 2 = i \<and> 0 < i"
      define g where "g = (i - 1) div 2"
      have gi: "g < i" using c unfolding g_def by presburger
      have g: "key (h ! g) \<le> key (h ! i)" using old [of i] c ij il by (simp add: g_def)
      have ic: "i < c" using c by auto
      have goal: "key (h' ! g) \<le> key (h' ! c)"
      proof (cases "c = j")
        case True
        then show ?thesis using g gi ij by (simp add: nth)
      next
        case False
        have "key (h ! i) \<le> key (h ! c)" using old [of c] c False by (simp add: len)
        with g have "key (h ! g) \<le> key (h ! c)" by (rule order_trans)
        then show ?thesis using False gi ij ic by (simp add: nth)
      qed
      then show "key (h' ! ((i - 1) div 2)) \<le> key (h' ! c)" by (simp add: g_def)
    qed
    have a': "(j - 1) div 2 \<noteq> j" and b': "Less h j ((j - 1) div 2)"
      using a b by (simp_all add: i_def)
    have "up h j = up h' i"
      using a' b' by (subst up_unfold) (simp add: h'_def i_def)
    moreover have "is_heap (up h' i)"
      using step.IH [OF a' b'] pre il unfolding h'_def i_def by simp
    ultimately show ?thesis by simp
  qed
qed

lemma is_heap_Nil [simp]: "is_heap []"
  by (simp add: is_heap_def heap_from_def)

lemma heap_root_le: "heap_from h 0 n \<Longrightarrow> j < n \<Longrightarrow> key (h ! 0) \<le> key (h ! j)"
proof (induction j rule: less_induct)
  case (less j)
  show ?case
  proof (cases "j = 0")
    case True
    then show ?thesis by simp
  next
    case False
    then have "(j - 1) div 2 < j" by auto
    then have "key (h ! 0) \<le> key (h ! ((j - 1) div 2))"
      using less.IH less.prems by simp
    also have "\<dots> \<le> key (h ! j)"
      using less.prems False by (simp add: heap_from_def)
    finally show ?thesis .
  qed
qed

lemma is_heap_Push: "is_heap h \<Longrightarrow> is_heap (heap_Push h x)"
proof -
  assume h: "is_heap h"
  have "up_pre (h @ [x]) (length h)"
    unfolding up_pre_def
  proof (intro conjI allI impI)
    fix c assume c: "0 < c \<and> c < length (h @ [x]) \<and> c \<noteq> length h"
    then have "c < length h" by simp
    moreover from this c have "(c - 1) div 2 < length h" by auto
    ultimately show "key ((h @ [x]) ! ((c - 1) div 2)) \<le> key ((h @ [x]) ! c)"
      using h c by (simp add: nth_append is_heap_def heap_from_def)
  next
    fix c assume c: "0 < c \<and> c < length (h @ [x]) \<and> (c - 1) div 2 = length h \<and> 0 < length h"
    then have "(c - 1) div 2 < c" by auto
    with c have False by simp
    then show "key ((h @ [x]) ! ((length h - 1) div 2)) \<le> key ((h @ [x]) ! c)" ..
  qed
  then show ?thesis
    by (simp add: heap_Push_def Let_def up_heap)
qed

lemma heap_from_Init_loop:
  "heap_from h k n \<Longrightarrow> n \<le> length h \<Longrightarrow> heap_from (heap_Init_loop h k n) 0 n"
proof (induction k arbitrary: h)
  case 0
  then show ?case by simp
next
  case (Suc k)
  have "down_pre h k n k"
    unfolding down_pre_def
  proof (intro conjI allI impI)
    fix c assume "0 < c \<and> c < n \<and> k \<le> (c - 1) div 2 \<and> (c - 1) div 2 \<noteq> k"
    then show "key (h ! ((c - 1) div 2)) \<le> key (h ! c)"
      using Suc.prems(1) by (simp add: heap_from_def)
  next
    fix c assume "0 < c \<and> c < n \<and> (c - 1) div 2 = k \<and> 0 < k \<and> k \<le> (k - 1) div 2"
    then have False by presburger
    then show "key (h ! ((k - 1) div 2)) \<le> key (h ! c)" ..
  qed
  then have "heap_from (down h k n) k n"
    using Suc.prems(2) by (rule down_heap)
  then show ?case
    using Suc.IH [of "down h k n"] Suc.prems(2) by simp
qed

lemma is_heap_Init: "is_heap (heap_Init h)"
proof -
  have "heap_from h (length h div 2) (length h)"
    unfolding heap_from_def by presburger
  then have "heap_from (heap_Init h) 0 (length h)"
    by (simp add: heap_Init_def Let_def heap_from_Init_loop)
  moreover have "length (heap_Init_loop g k n) = length g" for g k n
    by (induction k arbitrary: g) simp_all
  ultimately show ?thesis
    by (simp add: is_heap_def heap_Init_def Let_def)
qed

lemma mset_heap_Init_loop: "n \<le> length h \<Longrightarrow> mset (heap_Init_loop h k n) = mset h"
  by (induction k arbitrary: h) (simp_all add: mset_down)

lemma mset_heap_Init: "mset (heap_Init h) = mset h"
  by (simp add: heap_Init_def Let_def mset_heap_Init_loop)

lemma is_heap_Pop:
  assumes "is_heap h" "h \<noteq> []"
  shows "is_heap (snd (heap_Pop h))"
proof -
  define n where "n = length h - 1"
  define h1 where "h1 = Swap h 0 n"
  define h2 where "h2 = down h1 0 n"
  have n: "n < length h" using assms(2) by (cases h) (auto simp: n_def)
  have nth: "h1 ! k = h ! k" if "0 < k" "k < n" for k
    unfolding h1_def using that n by (simp add: Swap_def)
  have old: "key (h ! ((c - 1) div 2)) \<le> key (h ! c)" if "0 < c" "c < length h" for c
    using assms(1) that by (simp add: is_heap_def heap_from_def)
  have "down_pre h1 0 n 0"
    unfolding down_pre_def
  proof (intro conjI allI impI)
    fix c assume c: "0 < c \<and> c < n \<and> 0 \<le> (c - 1) div 2 \<and> (c - 1) div 2 \<noteq> 0"
    define p where "p = (c - 1) div 2"
    have "p < c" "0 < p" using c by (auto simp: p_def)
    then have "h1 ! p = h ! p" "h1 ! c = h ! c" using c by (auto intro: nth)
    moreover have "key (h ! p) \<le> key (h ! c)" using old [of c] c n by (simp add: p_def)
    ultimately show "key (h1 ! ((c - 1) div 2)) \<le> key (h1 ! c)" by (simp add: p_def)
  next
    fix c assume "0 < c \<and> c < n \<and> (c - 1) div 2 = 0 \<and> (0::nat) < 0 \<and> 0 \<le> (0 - 1) div (2::nat)"
    then show "key (h1 ! ((0 - 1) div 2)) \<le> key (h1 ! c)" by simp
  qed
  then have "heap_from h2 0 n"
    unfolding h2_def using n by (intro down_heap) (auto simp: h1_def)
  then have "heap_from (take n h2) 0 n"
    by (auto simp: heap_from_def)
  moreover have "length h2 = length h" by (simp add: h2_def h1_def)
  ultimately have "is_heap (take n h2)"
    using n by (simp add: is_heap_def)
  moreover have "snd (heap_Pop h) = take n h2"
    by (simp add: heap_Pop_def Let_def h2_def h1_def n_def)
  ultimately show ?thesis by simp
qed

lemma heap_Pop_min:
  assumes "is_heap h" "e \<in> set h"
  shows "key (fst (heap_Pop h)) \<le> key e"
proof -
  from assms(2) obtain j where "j < length h" "h ! j = e" by (auto simp: in_set_conv_nth)
  moreover from assms(2) have "h \<noteq> []" by auto
  ultimately show ?thesis
    using heap_root_le [of h "length h" j] assms(1) by (simp add: heap_Pop_fst is_heap_def)
qed

subsection \<open>The merge loop\<close>

text \<open>
  \<open>entry_pending e\<close> is what the cursor of the heap entry \<open>e\<close> has still to deliver: its current
  value and the tokens of its remaining input. \<open>pending h\<close> is the multiset of all the values
  the cursors in the heap \<open>h\<close> have still to deliver. One iteration of the loop takes the least
  of them out.
\<close>

definition entry_pending :: "heapEntry \<Rightarrow> string list" where
  "entry_pending e = key e # the (scan_all (input (reader e)))"

definition entry_ok :: "heapEntry \<Rightarrow> bool" where
  "entry_ok e \<longleftrightarrow> \<not> eof (reader e) \<and> scan_all (input (reader e)) \<noteq> None"

definition pending :: "mergeHeap \<Rightarrow> string multiset" where
  "pending h = sum_mset (image_mset (\<lambda>e. mset (entry_pending e)) (mset h))"

lemma pending_Nil [simp]: "pending [] = {#}"
  by (simp add: pending_def)

lemma pending_Push: "pending (heap_Push h x) = mset (entry_pending x) + pending h"
  by (simp add: pending_def mset_heap_Push)

lemma pending_Pop:
  "h \<noteq> [] \<Longrightarrow> heap_Pop h = (e, h1) \<Longrightarrow> pending h = mset (entry_pending e) + pending h1"
  using mset_heap_Pop [of h] by (simp add: pending_def flip: mset_heap_Pop [of h])

lemma set_heap_Pop:
  "h \<noteq> [] \<Longrightarrow> heap_Pop h = (e, h1) \<Longrightarrow> set h = insert e (set h1)"
  using mset_heap_Pop [of h] by (metis fst_conv snd_conv set_mset_add_mset_insert set_mset_mset)

lemma set_heap_Push: "set (heap_Push h x) = insert x (set h)"
  by (metis mset_heap_Push set_mset_add_mset_insert set_mset_mset)

lemma in_pending_iff: "x \<in># pending h \<longleftrightarrow> (\<exists>e\<in>set h. x \<in> set (entry_pending e))"
  by (induction h) (auto simp: pending_def)

lemma mergeLoop_step:
  assumes ne: "h \<noteq> []" and ok: "\<forall>e\<in>set h. entry_ok e" and poll: "ctx_done c = (False, c')"
  obtains h' v where
    "mergeLoop c h pv hp u d p =
       mergeLoop c' h' (if hp \<and> v = pv then pv else v) (if hp \<and> v = pv then hp else True)
         (if hp \<and> v = pv then u else u + 1) (if hp \<and> v = pv then d + 1 else d) (p + 1)"
    "pending h = add_mset v (pending h')"
    "\<forall>e\<in>set h'. entry_ok e"
    "is_heap h \<Longrightarrow> is_heap h'"
    "is_heap h \<Longrightarrow> \<forall>e\<in>set h. sorted (entry_pending e) \<Longrightarrow>
       (\<forall>x\<in>#pending h. v \<le> x) \<and> (\<forall>e\<in>set h'. sorted (entry_pending e))"
proof -
  obtain e h1 where pop: "heap_Pop h = (e, h1)" by (cases "heap_Pop h")
  have seth: "set h = insert e (set h1)" using ne pop by (rule set_heap_Pop)
  then have eok: "entry_ok e" using ok by simp
  have h1heap: "is_heap h \<Longrightarrow> is_heap h1"
    using is_heap_Pop [of h] ne pop by simp
  have emin: "is_heap h \<Longrightarrow> e' \<in> set h \<Longrightarrow> key e \<le> key e'" for e'
    using heap_Pop_min [of h e'] pop by simp
  from eok obtain ts where ts: "scan_all (input (reader e)) = Some ts"
    by (auto simp: entry_ok_def)
  have ep: "entry_pending e = key e # ts" by (simp add: entry_pending_def ts)
  have minall: "\<forall>x\<in>#pending h. key e \<le> x"
    if hp: "is_heap h" and so: "\<forall>e\<in>set h. sorted (entry_pending e)"
  proof
    fix x assume "x \<in># pending h"
    then obtain e' where e': "e' \<in> set h" "x \<in> set (entry_pending e')"
      by (auto simp: in_pending_iff)
    then have "key e' \<le> x" using so by (auto simp: entry_pending_def)
    with emin [OF hp e'(1)] show "key e \<le> x" by (rule order_trans)
  qed
  show thesis
  proof (cases "scan (input (reader e))")
    case ScanErr
    with ts show ?thesis by (simp add: scan_all.simps [of "input (reader e)"])
  next
    case ScanEOF
    then have adv: "advance (reader e) = Inr ((reader e)\<lparr>eof := True, cur := []\<rparr>)"
      using eok by (simp add: advance_def entry_ok_def)
    from ScanEOF ts have "ts = []" by (simp add: scan_all.simps [of "input (reader e)"])
    then have pe: "pending h = add_mset (key e) (pending h1)"
      using pending_Pop [OF ne pop] ep by simp
    show ?thesis
    proof (rule that [of h1 "key e"])
      show "mergeLoop c h pv hp u d p =
        mergeLoop c' h1 (if hp \<and> key e = pv then pv else key e) (if hp \<and> key e = pv then hp else True)
          (if hp \<and> key e = pv then u else u + 1) (if hp \<and> key e = pv then d + 1 else d) (p + 1)"
        using ne poll pop adv by (subst mergeLoop.simps) simp
      show "pending h = add_mset (key e) (pending h1)" by (rule pe)
      show "\<forall>e\<in>set h1. entry_ok e" using ok seth by simp
      show "is_heap h \<Longrightarrow> is_heap h1" by (rule h1heap)
      show "(\<forall>x\<in>#pending h. key e \<le> x) \<and> (\<forall>e\<in>set h1. sorted (entry_pending e))"
        if "is_heap h" "\<forall>e\<in>set h. sorted (entry_pending e)"
        using minall [OF that] that(2) seth by simp
    qed
  next
    case (ScanToken t rest)
    define r where "r = (reader e)\<lparr>cur := t, input := rest\<rparr>"
    define e' where "e' = \<lparr>key = cur r, reader = r\<rparr>"
    have adv: "advance (reader e) = Inr r"
      using eok ScanToken by (simp add: advance_def entry_ok_def r_def)
    have neof: "\<not> eof r" using eok by (simp add: r_def entry_ok_def)
    from ScanToken ts obtain ts' where ts': "scan_all rest = Some ts'" "ts = t # ts'"
      by (auto simp: scan_all.simps [of "input (reader e)"])
    have ep': "entry_pending e' = t # ts'"
      by (simp add: entry_pending_def e'_def r_def ts')
    have e'ok: "entry_ok e'" using neof ts' by (simp add: entry_ok_def e'_def r_def)
    have pe: "pending h = add_mset (key e) (pending (heap_Push h1 e'))"
      using pending_Pop [OF ne pop] by (simp add: pending_Push ep ep' ts')
    show ?thesis
    proof (rule that [of "heap_Push h1 e'" "key e"])
      show "mergeLoop c h pv hp u d p =
        mergeLoop c' (heap_Push h1 e') (if hp \<and> key e = pv then pv else key e)
          (if hp \<and> key e = pv then hp else True)
          (if hp \<and> key e = pv then u else u + 1) (if hp \<and> key e = pv then d + 1 else d) (p + 1)"
        using ne poll pop adv neof by (subst mergeLoop.simps) (simp add: e'_def)
      show "pending h = add_mset (key e) (pending (heap_Push h1 e'))" by (rule pe)
      show "\<forall>e\<in>set (heap_Push h1 e'). entry_ok e"
        using ok seth e'ok by (simp add: set_heap_Push)
      show "is_heap h \<Longrightarrow> is_heap (heap_Push h1 e')"
        using h1heap by (simp add: is_heap_Push)
      show "(\<forall>x\<in>#pending h. key e \<le> x) \<and> (\<forall>e\<in>set (heap_Push h1 e'). sorted (entry_pending e))"
        if "is_heap h" "\<forall>e\<in>set h. sorted (entry_pending e)"
      proof -
        have "sorted (entry_pending e)" using that(2) seth by simp
        then have "sorted (entry_pending e')" by (simp add: ep ep' ts')
        then show ?thesis
          using minall [OF that] that(2) seth by (simp add: set_heap_Push)
      qed
    qed
  qed
qed

lemma pending_empty_iff: "\<forall>e\<in>set h. entry_ok e \<Longrightarrow> pending h = {#} \<longleftrightarrow> h = []"
  by (cases h) (auto simp: pending_def entry_pending_def)

definition polls_suffice :: "nat option \<Rightarrow> nat \<Rightarrow> bool" where
  "polls_suffice c n \<longleftrightarrow> (case c of None \<Rightarrow> True | Some k \<Rightarrow> n \<le> k)"

definition polls_after :: "nat option \<Rightarrow> nat \<Rightarrow> nat option" where
  "polls_after c n = map_option (\<lambda>k. k - n) c"

lemma ctx_done_suffice:
  "polls_suffice c (Suc n) \<Longrightarrow> ctx_done c = (False, polls_after c 1)"
  by (cases c; cases "the c") (auto simp: polls_suffice_def polls_after_def)

lemma mergeLoop_counts:
  assumes "is_heap h" "\<forall>e\<in>set h. entry_ok e" "\<forall>e\<in>set h. sorted (entry_pending e)"
    and "hp \<longrightarrow> (\<forall>x\<in>#pending h. pv \<le> x)"
    and "polls_suffice c (size (pending h))"
  shows "mergeLoop c h pv hp u d p =
     (polls_after c (size (pending h)),
      Inr (u + int (card (set_mset (pending h) - (if hp then {pv} else {}))),
           d + (int (size (pending h)) - int (card (set_mset (pending h) - (if hp then {pv} else {}))))))"
  using assms
proof (induction n \<equiv> "size (pending h)" arbitrary: h c pv hp u d p)
  case 0
  then have "h = []" by (simp add: pending_empty_iff)
  then show ?case
    by (subst mergeLoop.simps) (cases c; simp add: polls_after_def)
next
  case (Suc n)
  then have ne: "h \<noteq> []" by auto
  have poll: "ctx_done c = (False, polls_after c 1)"
    using Suc.prems(5) ctx_done_suffice [of c n] unfolding Suc.hyps(2) [symmetric] by blast
  obtain h' v where step:
    "mergeLoop c h pv hp u d p =
       mergeLoop (polls_after c 1) h' (if hp \<and> v = pv then pv else v) (if hp \<and> v = pv then hp else True)
         (if hp \<and> v = pv then u else u + 1) (if hp \<and> v = pv then d + 1 else d) (p + 1)"
    "pending h = add_mset v (pending h')"
    "\<forall>e\<in>set h'. entry_ok e"
    "is_heap h'"
    "\<forall>x\<in>#pending h. v \<le> x" "\<forall>e\<in>set h'. sorted (entry_pending e)"
    using mergeLoop_step [OF ne Suc.prems(2) poll, of pv hp u d p] Suc.prems(1,3)
    by metis
  let ?P = "pending h" and ?P' = "pending h'"
  have n: "n = size ?P'" using Suc.hyps(2) step(2) by simp
  have lo: "\<forall>x\<in>#?P'. v \<le> x" using step(2,5) by simp
  have suff: "polls_suffice (polls_after c 1) (size ?P')"
    using Suc.prems(5) step(2) by (cases c) (auto simp: polls_suffice_def polls_after_def)
  have after: "polls_after (polls_after c 1) (size ?P') = polls_after c (size ?P)"
    using step(2) by (cases c) (auto simp: polls_after_def)
  have fin: "finite (set_mset ?P' - {v})" by simp
  show ?case
  proof (cases "hp \<and> v = pv")
    case True
    have "mergeLoop c h pv hp u d p = mergeLoop (polls_after c 1) h' v True u (d + 1) (p + 1)"
      using step(1) True by simp
    also have "\<dots> = (polls_after (polls_after c 1) (size ?P'),
        Inr (u + int (card (set_mset ?P' - {v})),
             d + 1 + (int (size ?P') - int (card (set_mset ?P' - {v})))))"
      using Suc.hyps(1) [OF n step(4,3,6) _ suff, of True v u "d + 1" "p + 1"] lo by simp
    finally show ?thesis
      using True step(2) after by simp
  next
    case False
    have "mergeLoop c h pv hp u d p = mergeLoop (polls_after c 1) h' v True (u + 1) d (p + 1)"
      using step(1) False by auto
    also have "\<dots> = (polls_after (polls_after c 1) (size ?P'),
        Inr (u + 1 + int (card (set_mset ?P' - {v})),
             d + (int (size ?P') - int (card (set_mset ?P' - {v})))))"
      using Suc.hyps(1) [OF n step(4,3,6) _ suff, of True v "u + 1" d "p + 1"] lo by simp
    finally have run: "mergeLoop c h pv hp u d p = (polls_after c (size ?P),
        Inr (u + 1 + int (card (set_mset ?P' - {v})),
             d + (int (size ?P') - int (card (set_mset ?P' - {v})))))"
      using after by simp
    have notin: "hp \<Longrightarrow> pv \<notin># ?P"
    proof
      assume "hp" "pv \<in># ?P"
      then have "v \<le> pv" "pv \<le> v" using step(5) Suc.prems(4) step(2) by auto
      with False \<open>hp\<close> show False by simp
    qed
    then have "set_mset ?P - (if hp then {pv} else {}) = insert v (set_mset ?P')"
      using step(2) by auto
    then have "card (set_mset ?P - (if hp then {pv} else {})) = Suc (card (set_mset ?P' - {v}))"
      by (simp add: card.insert_remove)
    then show ?thesis
      using run step(2) by simp
  qed
qed

lemma mergeLoop_canceled:
  assumes "\<forall>e\<in>set h. entry_ok e" "k < size (pending h)"
  shows "mergeLoop (Some k) h pv hp u d p = (Some 0, Inl ErrCanceled)"
  using assms
proof (induction k arbitrary: h pv hp u d p)
  case 0
  then have "h \<noteq> []" by auto
  then show ?case by (subst mergeLoop.simps) simp
next
  case (Suc k)
  then have ne: "h \<noteq> []" by auto
  have poll: "ctx_done (Some (Suc k)) = (False, Some k)" by simp
  obtain h' v where step:
    "mergeLoop (Some (Suc k)) h pv hp u d p =
       mergeLoop (Some k) h' (if hp \<and> v = pv then pv else v) (if hp \<and> v = pv then hp else True)
         (if hp \<and> v = pv then u else u + 1) (if hp \<and> v = pv then d + 1 else d) (p + 1)"
    "pending h = add_mset v (pending h')"
    "\<forall>e\<in>set h'. entry_ok e"
    using mergeLoop_step [OF ne Suc.prems(1) poll, of pv hp u d p] by metis
  have "k < size (pending h')" using Suc.prems(2) step(2) by simp
  from Suc.IH [OF step(3) this] step(1) show ?case by simp
qed

subsection \<open>Properties of \<open>mergeChunks\<close>\<close>

text \<open>
  Opening the cursors over readable chunk files gives one reader for each file that holds a
  record, with the records of the file pending; the deferred loop closes what was opened; an
  empty chunk file is opened and closed at once.
\<close>

lemma scan_all_Nil [simp]: "scan_all [] = Some []"
  by (simp add: scan_all.simps [of "[]"] scan_def)

lemma scan_all_eq_Nil: "scan_all d = Some [] \<longleftrightarrow> d = []"
  by (cases "d = []") (auto simp: scan_all.simps [of d] scan_def Let_def)

lemma scan_all_Cons:
  "scan_all d = Some (t # ts) \<Longrightarrow> \<exists>rest. scan d = ScanToken t rest \<and> scan_all rest = Some ts"
  by (auto simp: scan_all.simps [of d] split: scan_result.splits)

lemma newChunkReader_empty:
  "chunk_records w m = Some [] \<Longrightarrow>
   \<exists>cr. newChunkReader w m = (w\<lparr>open_files := Path m # open_files w\<rparr>, Inr cr) \<and> eof cr \<and> meta cr = m"
  by (auto simp: chunk_records_def newChunkReader_def advance_def scan_all_eq_Nil scan_def
      split: option.splits)

lemma newChunkReader_records:
  "chunk_records w m = Some (t # ts) \<Longrightarrow>
   \<exists>rest. newChunkReader w m =
      (w\<lparr>open_files := Path m # open_files w\<rparr>, Inr \<lparr>meta = m, input = rest, cur = t, eof = False\<rparr>) \<and>
      scan_all rest = Some ts"
  by (auto simp: chunk_records_def newChunkReader_def advance_def
      split: option.splits dest!: scan_all_Cons)

lemma chunk_records_open_files [simp]:
  "chunk_records (w\<lparr>open_files := x\<rparr>) = chunk_records w"
  by (rule ext) (simp add: chunk_records_def)

definition reader_pending :: "chunkReader \<Rightarrow> string list" where
  "reader_pending r = cur r # the (scan_all (input r))"

definition reader_ok :: "chunkReader \<Rightarrow> bool" where
  "reader_ok r \<longleftrightarrow> \<not> eof r \<and> scan_all (input r) \<noteq> None"

lemma close_reader_after_open:
  "meta cr = m \<Longrightarrow> close_reader (w\<lparr>open_files := Path m # open_files w\<rparr>) cr = w"
  by (simp add: close_reader_def)

lemma openReaders_records:
  "map (chunk_records w) metas = map Some chunks \<Longrightarrow>
   \<exists>rs. openReaders w metas acc =
          (w\<lparr>open_files := rev (map (\<lambda>r. Path (meta r)) rs) @ open_files w\<rparr>, Inr (acc @ rs)) \<and>
        map reader_pending rs = filter (\<lambda>c. c \<noteq> []) chunks \<and> (\<forall>r\<in>set rs. reader_ok r)"
proof (induction metas arbitrary: w acc chunks)
  case Nil
  then show ?case by simp
next
  case (Cons m metas)
  then obtain c cs where chunks: "chunks = c # cs" "chunk_records w m = Some c"
    "map (chunk_records w) metas = map Some cs"
    by (cases chunks) auto
  show ?case
  proof (cases c)
    case Nil
    then obtain cr where cr: "newChunkReader w m = (w\<lparr>open_files := Path m # open_files w\<rparr>, Inr cr)"
      "eof cr" "meta cr = m"
      using newChunkReader_empty chunks(2) by blast
    from Cons.IH [OF chunks(3), of acc] obtain rs where
      "openReaders w metas acc =
          (w\<lparr>open_files := rev (map (\<lambda>r. Path (meta r)) rs) @ open_files w\<rparr>, Inr (acc @ rs))"
      "map reader_pending rs = filter (\<lambda>c. c \<noteq> []) cs" "\<forall>r\<in>set rs. reader_ok r"
      by blast
    then show ?thesis
      using cr chunks(1) Nil by (auto simp: close_reader_after_open)
  next
    case (Cons t ts)
    then obtain rest where r: "newChunkReader w m =
      (w\<lparr>open_files := Path m # open_files w\<rparr>, Inr \<lparr>meta = m, input = rest, cur = t, eof = False\<rparr>)"
      "scan_all rest = Some ts"
      using newChunkReader_records chunks(2) by blast
    let ?w1 = "w\<lparr>open_files := Path m # open_files w\<rparr>"
    let ?cr = "\<lparr>meta = m, input = rest, cur = t, eof = False\<rparr>"
    have "map (chunk_records ?w1) metas = map Some cs" using chunks(3) by simp
    from Cons.IH [OF this, of "acc @ [?cr]"] obtain rs where rs:
      "openReaders ?w1 metas (acc @ [?cr]) =
          (?w1\<lparr>open_files := rev (map (\<lambda>r. Path (meta r)) rs) @ open_files ?w1\<rparr>, Inr ((acc @ [?cr]) @ rs))"
      "map reader_pending rs = filter (\<lambda>c. c \<noteq> []) cs" "\<forall>r\<in>set rs. reader_ok r"
      by blast
    have "reader_pending ?cr = t # ts" "reader_ok ?cr"
      using r(2) by (simp_all add: reader_pending_def reader_ok_def)
    then show ?thesis
      using r rs chunks(1) Cons by (intro exI [of _ "?cr # rs"]) simp
  qed
qed

lemma closeAll_only_open_files: "closeAll w rs = w\<lparr>open_files := open_files (closeAll w rs)\<rparr>"
proof (induction rs arbitrary: w)
  case Nil
  show ?case by simp
next
  case (Cons r rs)
  have "closeAll (w\<lparr>open_files := x\<rparr>) rs = w\<lparr>open_files := open_files (closeAll (w\<lparr>open_files := x\<rparr>) rs)\<rparr>" for x
    using Cons [of "w\<lparr>open_files := x\<rparr>"] by simp
  then show ?case by (simp add: close_reader_def)
qed

lemma mset_open_files_closeAll:
  "mset (open_files (closeAll w rs)) = mset (open_files w) - mset (map (\<lambda>r. Path (meta r)) rs)"
  by (induction rs arbitrary: w) (simp_all add: close_reader_def)

lemma ctx_closeAll [simp]: "ctx (closeAll w rs) = ctx w"
  by (subst closeAll_only_open_files) simp

lemma files_closeAll [simp]: "files (closeAll w rs) = files w"
  by (subst closeAll_only_open_files) simp

definition entry_of :: "chunkReader \<Rightarrow> heapEntry" where
  "entry_of r = \<lparr>key = cur r, reader = r\<rparr>"

lemma pending_Init:
  "pending (heap_Init (map entry_of rs)) = mset (concat (map reader_pending rs))"
  by (induction rs)
     (simp_all add: pending_def mset_heap_Init entry_of_def entry_pending_def reader_pending_def)

lemma set_heap_Init: "set (heap_Init h) = set h"
  by (metis mset_heap_Init set_mset_mset)

lemma concat_filter_nonempty: "concat (filter (\<lambda>c. c \<noteq> []) xs) = concat xs"
  by (induction xs) auto

lemma init_heap_facts:
  assumes "map reader_pending rs = filter (\<lambda>c. c \<noteq> []) chunks" "\<forall>r\<in>set rs. reader_ok r"
  defines "h \<equiv> heap_Init (map entry_of rs)"
  shows "is_heap h" "\<forall>e\<in>set h. entry_ok e" "pending h = mset (concat chunks)"
    "\<forall>c\<in>set chunks. sorted c \<Longrightarrow> \<forall>e\<in>set h. sorted (entry_pending e)"
proof -
  show "is_heap h" by (simp add: h_def is_heap_Init)
  show "\<forall>e\<in>set h. entry_ok e"
    using assms(2) by (auto simp: h_def set_heap_Init entry_ok_def reader_ok_def entry_of_def)
  show "pending h = mset (concat chunks)"
    by (simp add: h_def pending_Init assms(1) concat_filter_nonempty)
  show "\<forall>e\<in>set h. sorted (entry_pending e)" if "\<forall>c\<in>set chunks. sorted c"
  proof
    fix e assume "e \<in> set h"
    then obtain r where r: "r \<in> set rs" "e = entry_of r" by (auto simp: h_def set_heap_Init)
    then have "reader_pending r \<in> set (map reader_pending rs)" by simp
    then have "reader_pending r \<in> set chunks" unfolding assms(1) by simp
    then have "sorted (reader_pending r)" using that by blast
    moreover have "entry_pending e = reader_pending r"
      using r(2) by (simp add: entry_pending_def entry_of_def reader_pending_def)
    ultimately show "sorted (entry_pending e)" by simp
  qed
qed

lemma mergeChunks_unfold:
  assumes "map (chunk_records w) (man_Chunks man) = map Some chunks"
    and "\<exists>c\<in>set chunks. c \<noteq> []"
  obtains rs where
    "map reader_pending rs = filter (\<lambda>c. c \<noteq> []) chunks" "\<forall>r\<in>set rs. reader_ok r"
    "mergeChunks w man =
      (case mergeLoop (ctx w) (heap_Init (map entry_of rs)) [] False 0 0 0 of
         (c', res) \<Rightarrow>
           (closeAll (w\<lparr>open_files := rev (map (\<lambda>r. Path (meta r)) rs) @ open_files w, ctx := c'\<rparr>) rs, res))"
proof -
  from openReaders_records [OF assms(1), of "[]"] obtain rs where rs:
    "openReaders w (man_Chunks man) [] =
          (w\<lparr>open_files := rev (map (\<lambda>r. Path (meta r)) rs) @ open_files w\<rparr>, Inr rs)"
    "map reader_pending rs = filter (\<lambda>c. c \<noteq> []) chunks" "\<forall>r\<in>set rs. reader_ok r"
    by auto
  from assms(2) have "filter (\<lambda>c. c \<noteq> []) chunks \<noteq> []" by (simp add: filter_empty_conv)
  with rs(2) have "rs \<noteq> []" by auto
  moreover from assms have "man_Chunks man \<noteq> []" by auto
  moreover have "(\<lambda>r. \<lparr>key = cur r, reader = r\<rparr>) = entry_of"
    by (rule ext) (simp add: entry_of_def)
  ultimately have "mergeChunks w man =
      (case mergeLoop (ctx w) (heap_Init (map entry_of rs)) [] False 0 0 0 of
         (c', res) \<Rightarrow>
           (closeAll (w\<lparr>open_files := rev (map (\<lambda>r. Path (meta r)) rs) @ open_files w, ctx := c'\<rparr>) rs, res))"
    using rs(1) by (simp add: mergeChunks_def)
  with rs(2,3) show thesis by (rule that)
qed

lemma mergeChunks_distinct_total:
  assumes "map (chunk_records w) (man_Chunks man) = map Some chunks"
    and "\<forall>c\<in>set chunks. sorted c"
    and "\<exists>c\<in>set chunks. c \<noteq> []"
    and "ctx w = None"
  shows "snd (mergeChunks w man) =
     Inr (int (card (\<Union> (set ` set chunks))),
          int (sum_list (map length chunks)) - int (card (\<Union> (set ` set chunks))))"
proof -
  from mergeChunks_unfold [OF assms(1,3)] obtain rs where rs:
    "map reader_pending rs = filter (\<lambda>c. c \<noteq> []) chunks" "\<forall>r\<in>set rs. reader_ok r"
    "mergeChunks w man =
      (case mergeLoop (ctx w) (heap_Init (map entry_of rs)) [] False 0 0 0 of
         (c', res) \<Rightarrow>
           (closeAll (w\<lparr>open_files := rev (map (\<lambda>r. Path (meta r)) rs) @ open_files w, ctx := c'\<rparr>) rs, res))"
    by blast
  let ?h = "heap_Init (map entry_of rs)"
  note facts = init_heap_facts [OF rs(1,2)]
  have "mergeLoop None ?h [] False 0 0 0 =
     (polls_after None (size (pending ?h)),
      Inr (0 + int (card (set_mset (pending ?h) - (if False then {[]} else {}))),
           0 + (int (size (pending ?h)) - int (card (set_mset (pending ?h) - (if False then {[]} else {}))))))"
    using facts(1,2) facts(4) [OF assms(2)]
    by (intro mergeLoop_counts) (simp_all add: polls_suffice_def)
  then show ?thesis
    by (simp add: rs(3) assms(4) facts(3) length_concat)
qed

abbreviation paths_of :: "chunkReader list \<Rightarrow> string multiset" where
  "paths_of rs \<equiv> mset (map (\<lambda>r. Path (meta r)) rs)"

lemma newChunkReader_open_files:
  "newChunkReader w m = (w1, res) \<Longrightarrow>
   (case res of
      Inl err \<Rightarrow> w1 = w
    | Inr cr \<Rightarrow> w1 = w\<lparr>open_files := Path m # open_files w\<rparr> \<and> meta cr = m)"
  by (auto simp: newChunkReader_def advance_def split: option.splits sum.splits scan_result.splits)

lemma openReaders_open_files:
  "openReaders w metas acc = (w', res) \<Longrightarrow> paths_of acc \<subseteq># mset (open_files w) \<Longrightarrow>
   (case res of
      Inl err \<Rightarrow> mset (open_files w') = mset (open_files w) - paths_of acc
    | Inr rs \<Rightarrow> mset (open_files w') - paths_of rs = mset (open_files w) - paths_of acc \<and>
               paths_of rs \<subseteq># mset (open_files w'))"
proof (induction metas arbitrary: w acc)
  case Nil
  then show ?case by auto
next
  case (Cons m metas)
  obtain w1 r where n: "newChunkReader w m = (w1, r)" by (cases "newChunkReader w m")
  show ?case
  proof (cases r)
    case (Inl err)
    with n Cons.prems newChunkReader_open_files [OF n] show ?thesis
      by (auto simp: mset_open_files_closeAll)
  next
    case (Inr cr)
    with newChunkReader_open_files [OF n]
    have w1: "w1 = w\<lparr>open_files := Path m # open_files w\<rparr>" and cr: "meta cr = m" by auto
    show ?thesis
    proof (cases "eof cr")
      case True
      then have "openReaders w metas acc = (w', res)"
        using Cons.prems(1) n Inr w1 cr by (simp add: close_reader_after_open)
      from Cons.IH [OF this Cons.prems(2)] show ?thesis .
    next
      case False
      then have run: "openReaders w1 metas (acc @ [cr]) = (w', res)"
        using Cons.prems(1) n Inr by simp
      have sub: "paths_of (acc @ [cr]) \<subseteq># mset (open_files w1)"
        using Cons.prems(2) w1 cr by (simp add: subset_mset.add_mono)
      have eq: "mset (open_files w1) - paths_of (acc @ [cr]) = mset (open_files w) - paths_of acc"
        using w1 cr by simp
      from Cons.IH [OF run sub] eq show ?thesis
        by (cases res) auto
    qed
  qed
qed

lemma mergeChunks_releases:
  "mset (open_files (fst (mergeChunks w man))) = mset (open_files w)"
proof (cases "man_Chunks man = []")
  case True
  then show ?thesis by (simp add: mergeChunks_def)
next
  case False
  obtain w1 res where o: "openReaders w (man_Chunks man) [] = (w1, res)"
    by (cases "openReaders w (man_Chunks man) []")
  note of = openReaders_open_files [OF o]
  show ?thesis
  proof (cases res)
    case (Inl err)
    with of False o show ?thesis by (simp add: mergeChunks_def)
  next
    case (Inr rs)
    with of have eq: "mset (open_files w1) - paths_of rs = mset (open_files w)" by simp
    show ?thesis
    proof (cases "rs = []")
      case True
      with eq False o Inr show ?thesis by (simp add: mergeChunks_def)
    next
      case ne: False
      obtain c' r where "mergeLoop (ctx w1)
          (heap_Init (map (\<lambda>r. \<lparr>key = cur r, reader = r\<rparr>) rs)) [] False 0 0 0 = (c', r)"
        by (cases "mergeLoop (ctx w1) (heap_Init (map (\<lambda>r. \<lparr>key = cur r, reader = r\<rparr>) rs)) [] False 0 0 0")
      then have "fst (mergeChunks w man) = closeAll (w1\<lparr>ctx := c'\<rparr>) rs"
        using False o Inr ne by (simp add: mergeChunks_def)
      then show ?thesis
        using eq by (simp add: mset_open_files_closeAll)
    qed
  qed
qed

lemma mergeChunks_canceled:
  assumes "map (chunk_records w) (man_Chunks man) = map Some chunks"
    and "ctx w = Some k" and "k < sum_list (map length chunks)"
  shows "snd (mergeChunks w man) = Inl ErrCanceled \<and> ctx (fst (mergeChunks w man)) = Some 0"
proof -
  from assms(3) have "\<exists>c\<in>set chunks. c \<noteq> []"
    by (induction chunks) auto
  from mergeChunks_unfold [OF assms(1) this] obtain rs where rs:
    "map reader_pending rs = filter (\<lambda>c. c \<noteq> []) chunks" "\<forall>r\<in>set rs. reader_ok r"
    "mergeChunks w man =
      (case mergeLoop (ctx w) (heap_Init (map entry_of rs)) [] False 0 0 0 of
         (c', res) \<Rightarrow>
           (closeAll (w\<lparr>open_files := rev (map (\<lambda>r. Path (meta r)) rs) @ open_files w, ctx := c'\<rparr>) rs, res))"
    by blast
  let ?h = "heap_Init (map entry_of rs)"
  note facts = init_heap_facts [OF rs(1,2)]
  have "mergeLoop (Some k) ?h [] False 0 0 0 = (Some 0, Inl ErrCanceled)"
    using facts(2) assms(3) by (intro mergeLoop_canceled) (simp_all add: facts(3) length_concat)
  then show ?thesis
    by (simp add: rs(3) assms(2))
qed





subsection \<open>The claims about \<open>mergeChunks\<close>\<close>

text \<open>
  C1. For every family of chunks that are each sorted in non-decreasing order and free of
  adjacent equal values, \<open>mergeChunks\<close> returns a unique count equal to the number of distinct
  values across all chunks and a duplicate count equal to the total number of values minus
  that number. The chunks are the records of the chunk files of the manifest, as the cursors
  read them; the family holds at least one record (without any, \<open>mergeChunks\<close> returns an
  error) and the context is not cancelled. The proof rests on the heap invariant only: the
  entry popped holds a least value, whichever of several cursors with that value it belongs
  to. The example after the theorem runs the two orders of two chunks that share \<open>X\<close>: one
  \<open>X\<close> is counted unique and the other duplicate in both.
\<close>

theorem mergeChunks_counts:
  assumes "map (chunk_records w) (man_Chunks man) = map Some chunks"
    and "\<forall>c\<in>set chunks. sorted c \<and> distinct_adj c"
    and "\<exists>c\<in>set chunks. c \<noteq> []"
    and "ctx w = None"
  shows "snd (mergeChunks w man) =
     Inr (int (card (\<Union> (set ` set chunks))),
          int (sum_list (map length chunks)) - int (card (\<Union> (set ` set chunks))))"
proof -
  from assms(2) have "\<forall>c\<in>set chunks. sorted c" by blast
  with assms(1) show ?thesis
    using assms(3,4) by (rule mergeChunks_distinct_total)
qed

theorem mergeChunks_counts_witness:
  "snd (mergeChunks demo_chunks (demo_manifest [''a'', ''b''])) = Inr (2, 1) \<and>
   snd (mergeChunks demo_chunks (demo_manifest [''b'', ''a''])) = Inr (2, 1)"
proof -
  have ab: "map (chunk_records demo_chunks) (man_Chunks (demo_manifest [''a'', ''b''])) =
      map Some [[''X'', ''Y''], [''X'']]"
    by code_simp
  have ba: "map (chunk_records demo_chunks) (man_Chunks (demo_manifest [''b'', ''a''])) =
      map Some [[''X''], [''X'', ''Y'']]"
    by code_simp
  have s1: "\<forall>c\<in>set [[''X'', ''Y''], [''X'']]. sorted c \<and> distinct_adj c"
    by code_simp
  have s2: "\<forall>c\<in>set [[''X''], [''X'', ''Y'']]. sorted c \<and> distinct_adj c"
    by code_simp
  have n1: "\<exists>c\<in>set [[''X'', ''Y''], [''X'']]. c \<noteq> []" by simp
  have n2: "\<exists>c\<in>set [[''X''], [''X'', ''Y'']]. c \<noteq> []" by simp
  have c: "ctx demo_chunks = None" by (simp add: demo_chunks_def demo_world_def)
  have d1: "card (\<Union> (set ` set [[''X'', ''Y''], [''X'']])) = 2" by code_simp
  have d2: "card (\<Union> (set ` set [[''X''], [''X'', ''Y'']])) = 2" by code_simp
  from mergeChunks_counts [OF ab s1 n1 c] mergeChunks_counts [OF ba s2 n2 c] d1 d2
  show ?thesis by simp
qed



text \<open>
  C9. The merge loop checks the cancellation signal at every pop iteration; if cancellation
  is signalled mid-merge, \<open>mergeChunks\<close> stops within one pop iteration, releases all open
  cursors, and returns the cancellation as an error so that no \<open>Result\<close> is produced for that
  scheme. The parts: an iteration that finds the signal set returns at once, before the pop;
  when the signal is set after \<open>k\<close> polls and the chunks hold more than \<open>k\<close> records,
  \<open>mergeChunks\<close> returns the cancellation (the chunk files being readable), every polled
  iteration having seen the signal open but the last; the files it holds open are those it
  held before; and the rest of \<open>runScheme\<close> returns the cancellation instead of a result.
\<close>

theorem merge_cancellation:
  "(h \<noteq> [] \<longrightarrow> mergeLoop (Some 0) h pv hp u d p = (Some 0, Inl ErrCanceled)) \<and>
   (map (chunk_records w) (man_Chunks man) = map Some chunks \<and> ctx w = Some k \<and>
    k < sum_list (map length chunks) \<longrightarrow>
      snd (mergeChunks w man) = Inl ErrCanceled \<and>
      ctx (fst (mergeChunks w man)) = Some 0 \<and>
      mset (open_files (fst (mergeChunks w man))) = mset (open_files w) \<and>
      (verifyChunks L w man = None \<longrightarrow>
         snd (runScheme_finish L scheme tempDir w man tg tus) = Inl ErrCanceled))"
proof (intro conjI impI)
  assume "h \<noteq> []"
  then show "mergeLoop (Some 0) h pv hp u d p = (Some 0, Inl ErrCanceled)"
    by (subst mergeLoop.simps) simp
next
  assume a: "map (chunk_records w) (man_Chunks man) = map Some chunks \<and> ctx w = Some k \<and>
    k < sum_list (map length chunks)"
  then have c: "snd (mergeChunks w man) = Inl ErrCanceled \<and> ctx (fst (mergeChunks w man)) = Some 0"
    by (intro mergeChunks_canceled) auto
  from c show "snd (mergeChunks w man) = Inl ErrCanceled" by simp
  from c show "ctx (fst (mergeChunks w man)) = Some 0" by simp
  show "mset (open_files (fst (mergeChunks w man))) = mset (open_files w)"
    by (rule mergeChunks_releases)
  show "snd (runScheme_finish L scheme tempDir w man tg tus) = Inl ErrCanceled"
    if "verifyChunks L w man = None"
    using that c by (cases "mergeChunks w man") (simp add: runScheme_finish_def)
qed

theorem merge_cancellation_witness:
  "snd (mergeChunks (demo_chunks\<lparr>ctx := Some 1\<rparr>) (demo_manifest [''a'', ''b''])) = Inl ErrCanceled \<and>
   ctx (fst (mergeChunks (demo_chunks\<lparr>ctx := Some 1\<rparr>) (demo_manifest [''a'', ''b'']))) = Some 0 \<and>
   mset (open_files (fst (mergeChunks (demo_chunks\<lparr>ctx := Some 1\<rparr>) (demo_manifest [''a'', ''b''])))) =
     mset (open_files (demo_chunks\<lparr>ctx := Some 1\<rparr>)) \<and>
   snd (runScheme_finish demo_lib ''ulid'' ''/t'' (demo_chunks\<lparr>ctx := Some 1\<rparr>)
          (demo_manifest [''a'', ''b'']) 3 3) = Inl ErrCanceled \<and>
   snd (mergeChunks (demo_chunks\<lparr>ctx := Some 3\<rparr>) (demo_manifest [''a'', ''b''])) = Inr (2, 1)"
proof -
  have r: "map (chunk_records (demo_chunks\<lparr>ctx := Some 1\<rparr>)) (man_Chunks (demo_manifest [''a'', ''b''])) =
      map Some [[''X'', ''Y''], [''X'']]"
    by code_simp
  have c: "ctx (demo_chunks\<lparr>ctx := Some 1\<rparr>) = Some 1" by simp
  have k: "1 < sum_list (map length [[''X'', ''Y''], [''X'']])" by simp
  have v: "verifyChunks demo_lib (demo_chunks\<lparr>ctx := Some 1\<rparr>) (demo_manifest [''a'', ''b'']) = None"
    by code_simp
  have e: "snd (mergeChunks (demo_chunks\<lparr>ctx := Some 3\<rparr>) (demo_manifest [''a'', ''b''])) = Inr (2, 1)"
    by code_simp
  from merge_cancellation [of _ _ _ _ _ _ "demo_chunks\<lparr>ctx := Some 1\<rparr>" "demo_manifest [''a'', ''b'']"
      "[[''X'', ''Y''], [''X'']]" 1 demo_lib "''ulid''" "''/t''" 3 3] r c k v e
  show ?thesis by blast
qed

subsection \<open>Properties of \<open>runScheme\<close> and \<open>Run\<close>\<close>

text \<open>
  Invariants of the chunk loop (\<open>totalGenerated \<le> cfg.Scale\<close>; \<open>totalUniqueSum\<close> is the sum of
  the \<open>UniqueCount\<close> fields of the manifest), its termination for a positive chunk size, and
  what a successful return of \<open>runScheme\<close> went through.
\<close>

lemma runScheme_chunk_target:
  "runScheme_chunk L g scheme tempDir cfg w man tg ci = (w1, Inr (man1, ct, ul)) \<Longrightarrow>
   ct = minInt64 (ChunkSize cfg) (Scale cfg - tg) \<and> 0 \<le> ct"
  by (auto simp: runScheme_chunk_def Let_def
      split: option.splits if_splits prod.splits sum.splits)

lemma runScheme_loop_generated_aux:
  assumes run: "runScheme_loop L g scheme tempDir cfg w man tg tus ci = Some y"
  shows "tg \<le> Scale cfg \<longrightarrow>
    (\<forall>w' man' tg' tus' ci'. y = (w', Inr (man', tg', tus', ci')) \<longrightarrow> tg' = Scale cfg)"
proof (rule runScheme_loop.raw_induct [OF _ run, where P =
    "\<lambda>L g scheme tempDir cfg w man tg tus ci y. tg \<le> Scale cfg \<longrightarrow>
       (\<forall>w' man' tg' tus' ci'. y = (w', Inr (man', tg', tus', ci')) \<longrightarrow> tg' = Scale cfg)"])
  fix loop L g scheme tempDir cfg w man tg tus ci y
  assume IH: "\<And>L g scheme tempDir cfg w man tg tus ci y.
      loop L g scheme tempDir cfg w man tg tus ci = Some y \<Longrightarrow>
      tg \<le> Scale cfg \<longrightarrow>
        (\<forall>w' man' tg' tus' ci'. y = (w', Inr (man', tg', tus', ci')) \<longrightarrow> tg' = Scale cfg)"
    and body: "(if tg < Scale cfg
      then case ctx_done (ctx w) of
           (done, c') \<Rightarrow>
             if done then Some (w\<lparr>ctx := c'\<rparr>, Inl ErrCanceled)
             else case runScheme_chunk L g scheme tempDir cfg (w\<lparr>ctx := c'\<rparr>) man tg ci of
                  (w1, Inl err) \<Rightarrow> Some (w1, Inl err)
                  | (w1, Inr (man1, chunkTarget, uniqueLen)) \<Rightarrow>
                      loop L g scheme tempDir cfg w1 man1 (tg + chunkTarget) (tus + uniqueLen) (ci + 1)
      else Some (w, Inr (man, tg, tus, ci))) = Some y"
  show "tg \<le> Scale cfg \<longrightarrow>
    (\<forall>w' man' tg' tus' ci'. y = (w', Inr (man', tg', tus', ci')) \<longrightarrow> tg' = Scale cfg)"
  proof (intro impI allI)
    fix w' man' tg' tus' ci'
    assume le: "tg \<le> Scale cfg" and y: "y = (w', Inr (man', tg', tus', ci'))"
    show "tg' = Scale cfg"
    proof (cases "tg < Scale cfg")
      case False
      with body y le show ?thesis by auto
    next
      case True
      obtain d c' where poll: "ctx_done (ctx w) = (d, c')" by (cases "ctx_done (ctx w)")
      have nd: "\<not> d" using body y True poll by (auto split: if_splits)
      obtain w1 r where
        ch: "runScheme_chunk L g scheme tempDir cfg (w\<lparr>ctx := c'\<rparr>) man tg ci = (w1, r)"
        by (cases "runScheme_chunk L g scheme tempDir cfg (w\<lparr>ctx := c'\<rparr>) man tg ci")
      show ?thesis
      proof (cases r)
        case (Inl err)
        with body y True poll nd ch show ?thesis by auto
      next
        case (Inr t)
        obtain man1 ct ul where t: "t = (man1, ct, ul)" by (cases t)
        from runScheme_chunk_target [OF ch [unfolded Inr t]]
        have ct: "ct = minInt64 (ChunkSize cfg) (Scale cfg - tg)" by simp
        then have le': "tg + ct \<le> Scale cfg" by (simp add: minInt64_def)
        have "loop L g scheme tempDir cfg w1 man1 (tg + ct) (tus + ul) (ci + 1) = Some y"
          using body True poll nd ch Inr t by simp
        from IH [OF this] le' y show ?thesis by blast
      qed
    qed
  qed
qed

lemma runScheme_loop_generated:
  "runScheme_loop L g scheme tempDir cfg w man tg tus ci = Some (w', Inr (man', tg', tus', ci')) \<Longrightarrow>
   tg \<le> Scale cfg \<Longrightarrow> tg' = Scale cfg"
  using runScheme_loop_generated_aux by blast

lemma runScheme_chunk_manifest:
  "runScheme_chunk L g scheme tempDir cfg w man tg ci = (w1, Inr (man1, ct, ul)) \<Longrightarrow>
   \<exists>m. man1 = man\<lparr>man_Chunks := man_Chunks man @ [m]\<rparr> \<and> UniqueCount m = ul \<and> OriginalCount m = ct"
  by (auto simp: runScheme_chunk_def Let_def
      split: option.splits if_splits prod.splits sum.splits)

lemma runScheme_loop_unique_sum_aux:
  assumes run: "runScheme_loop L g scheme tempDir cfg w man tg tus ci = Some y"
  shows "\<forall>w' man' tg' tus' ci'. y = (w', Inr (man', tg', tus', ci')) \<longrightarrow>
     tus' - sum_list (map UniqueCount (man_Chunks man')) = tus - sum_list (map UniqueCount (man_Chunks man))"
proof (rule runScheme_loop.raw_induct [OF _ run, where P =
    "\<lambda>L g scheme tempDir cfg w man tg tus ci y.
       \<forall>w' man' tg' tus' ci'. y = (w', Inr (man', tg', tus', ci')) \<longrightarrow>
         tus' - sum_list (map UniqueCount (man_Chunks man')) =
         tus - sum_list (map UniqueCount (man_Chunks man))"])
  fix loop L g scheme tempDir cfg w man tg tus ci y
  assume IH: "\<And>L g scheme tempDir cfg w man tg tus ci y.
      loop L g scheme tempDir cfg w man tg tus ci = Some y \<Longrightarrow>
      \<forall>w' man' tg' tus' ci'. y = (w', Inr (man', tg', tus', ci')) \<longrightarrow>
         tus' - sum_list (map UniqueCount (man_Chunks man')) =
         tus - sum_list (map UniqueCount (man_Chunks man))"
    and body: "(if tg < Scale cfg
      then case ctx_done (ctx w) of
           (done, c') \<Rightarrow>
             if done then Some (w\<lparr>ctx := c'\<rparr>, Inl ErrCanceled)
             else case runScheme_chunk L g scheme tempDir cfg (w\<lparr>ctx := c'\<rparr>) man tg ci of
                  (w1, Inl err) \<Rightarrow> Some (w1, Inl err)
                  | (w1, Inr (man1, chunkTarget, uniqueLen)) \<Rightarrow>
                      loop L g scheme tempDir cfg w1 man1 (tg + chunkTarget) (tus + uniqueLen) (ci + 1)
      else Some (w, Inr (man, tg, tus, ci))) = Some y"
  show "\<forall>w' man' tg' tus' ci'. y = (w', Inr (man', tg', tus', ci')) \<longrightarrow>
     tus' - sum_list (map UniqueCount (man_Chunks man')) = tus - sum_list (map UniqueCount (man_Chunks man))"
  proof (intro impI allI)
    fix w' man' tg' tus' ci'
    assume y: "y = (w', Inr (man', tg', tus', ci'))"
    show "tus' - sum_list (map UniqueCount (man_Chunks man')) =
        tus - sum_list (map UniqueCount (man_Chunks man))"
    proof (cases "tg < Scale cfg")
      case False
      with body y show ?thesis by auto
    next
      case True
      obtain d c' where poll: "ctx_done (ctx w) = (d, c')" by (cases "ctx_done (ctx w)")
      have nd: "\<not> d" using body y True poll by (auto split: if_splits)
      obtain w1 r where
        ch: "runScheme_chunk L g scheme tempDir cfg (w\<lparr>ctx := c'\<rparr>) man tg ci = (w1, r)"
        by (cases "runScheme_chunk L g scheme tempDir cfg (w\<lparr>ctx := c'\<rparr>) man tg ci")
      show ?thesis
      proof (cases r)
        case (Inl err)
        with body y True poll nd ch show ?thesis by auto
      next
        case (Inr t)
        obtain man1 ct ul where t: "t = (man1, ct, ul)" by (cases t)
        from runScheme_chunk_manifest [OF ch [unfolded Inr t]] obtain m where
          m: "man1 = man\<lparr>man_Chunks := man_Chunks man @ [m]\<rparr>" "UniqueCount m = ul" by blast
        have "loop L g scheme tempDir cfg w1 man1 (tg + ct) (tus + ul) (ci + 1) = Some y"
          using body True poll nd ch Inr t by simp
        from IH [OF this] y
        have "tus' - sum_list (map UniqueCount (man_Chunks man')) =
           tus + ul - sum_list (map UniqueCount (man_Chunks man1))" by blast
        then show ?thesis using m by simp
      qed
    qed
  qed
qed

lemma runScheme_loop_unique_sum:
  "runScheme_loop L g scheme tempDir cfg w man 0 0 0 = Some (w', Inr (man', tg', tus', ci')) \<Longrightarrow>
   man_Chunks man = [] \<Longrightarrow> tus' = sum_list (map UniqueCount (man_Chunks man'))"
  using runScheme_loop_unique_sum_aux [of L g scheme tempDir cfg w man 0 0 0] by fastforce

lemma runScheme_loop_returns:
  assumes "0 < ChunkSize cfg"
  shows "\<exists>y. runScheme_loop L g scheme tempDir cfg w man tg tus ci = Some y"
proof (induction n \<equiv> "nat (Scale cfg - tg)" arbitrary: w man tg tus ci rule: less_induct)
  case less
  show ?case
  proof (cases "tg < Scale cfg")
    case False
    then show ?thesis by (subst runScheme_loop.simps) simp
  next
    case True
    obtain d c' where poll: "ctx_done (ctx w) = (d, c')" by (cases "ctx_done (ctx w)")
    obtain w1 r where
      ch: "runScheme_chunk L g scheme tempDir cfg (w\<lparr>ctx := c'\<rparr>) man tg ci = (w1, r)"
      by (cases "runScheme_chunk L g scheme tempDir cfg (w\<lparr>ctx := c'\<rparr>) man tg ci")
    show ?thesis
    proof (cases "d \<or> isl r")
      case True
      then show ?thesis
        using \<open>tg < Scale cfg\<close> poll ch
        by (subst runScheme_loop.simps) (cases r; auto)
    next
      case False
      then obtain man1 ct ul where r: "r = Inr (man1, ct, ul)" by (cases r) auto
      from runScheme_chunk_target [OF ch [unfolded r]] assms True
      have "0 < ct" by (simp add: minInt64_def split: if_splits)
      then have "nat (Scale cfg - (tg + ct)) < nat (Scale cfg - tg)" using True by simp
      from less [OF this, of w1 man1 "tus + ul" "ci + 1"] obtain y where
        "runScheme_loop L g scheme tempDir cfg w1 man1 (tg + ct) (tus + ul) (ci + 1) = Some y" ..
      then show ?thesis
        using True poll ch r False by (subst runScheme_loop.simps) simp
    qed
  qed
qed

lemma runScheme_finish_success:
  "runScheme_finish L scheme tempDir w man tg tus = (w3, Inr res) \<Longrightarrow>
   verifyChunks L w man = None \<and>
   mergeChunks w man = (w3, Inr (Unique res, Duplicates res)) \<and>
   tus = Unique res + Duplicates res \<and> ChunkUnique res = tus \<and> Generated res = tg"
  by (auto simp: runScheme_finish_def split: option.splits prod.splits sum.splits if_splits)

lemma runScheme_unknown:
  "generatorFor L scheme = Inl err \<Longrightarrow> runScheme L w scheme cfg = Some (w, Inl err)"
  by (simp add: runScheme_def)

lemma runScheme_success:
  assumes "runScheme L w scheme cfg = Some (w', Inr res)"
  obtains g w2 tempDir w1 man tg tus ci w3 where
    "generatorFor L scheme = Inr g"
    "runScheme_loop L g scheme tempDir cfg w2
       \<lparr>man_Scheme = scheme, man_Scale = Scale cfg, man_ChunkSize = ChunkSize cfg,
        man_ApproxBytesPerID = ApproxBytesPerID cfg, man_Chunks = []\<rparr> 0 0 0 =
     Some (w1, Inr (man, tg, tus, ci))"
    "runScheme_finish L scheme tempDir w1 man tg tus = (w3, Inr res)"
    "w' = (if \<not> KeepTempData cfg then RemoveAll w3 tempDir else w3)"
proof -
  from assms obtain g where g: "generatorFor L scheme = Inr g"
    by (cases "generatorFor L scheme") (auto simp: runScheme_def)
  define base where "base = (if TempDir cfg = []
                 then (case cwd w of
                         None \<Rightarrow> (w, Inl ErrGetwd)
                       | Some d \<Rightarrow>
                           (case MkdirAll w (filepath_Join d ''tmp'') of
                              (w1, Some err) \<Rightarrow> (w1, Inl ErrCreateTmp)
                            | (w1, None) \<Rightarrow> (w1, Inr (filepath_Join d ''tmp''))))
                 else (w, Inr (TempDir cfg)))"
  have run: "runScheme L w scheme cfg =
    (case base of
             (w1, Inl err) \<Rightarrow> Some (w1, Inl err)
           | (w1, Inr baseDir) \<Rightarrow>
               (case MkdirTemp w1 baseDir (''uidstress-'' @ scheme @ ''-'') of
                  (w2, Inl err) \<Rightarrow> Some (w2, Inl ErrCreateTempDir)
                | (w2, Inr tempDir) \<Rightarrow>
                    (case runScheme_work L g scheme tempDir cfg w2 of
                       None \<Rightarrow> None
                     | Some (w3, res) \<Rightarrow>
                         Some (if \<not> KeepTempData cfg then RemoveAll w3 tempDir else w3, res))))"
    by (simp only: runScheme_def g base_def sum.case)
  obtain wb rb where b: "base = (wb, rb)" by (cases base)
  from assms run b obtain baseDir where rb: "rb = Inr baseDir" by (cases rb) auto
  obtain w2 rt where t: "MkdirTemp wb baseDir (''uidstress-'' @ scheme @ ''-'') = (w2, rt)"
    by (cases "MkdirTemp wb baseDir (''uidstress-'' @ scheme @ ''-'')")
  from assms run b rb t obtain tempDir where rt: "rt = Inr tempDir" by (cases rt) auto
  from assms run b rb t rt obtain w3 where
    work: "runScheme_work L g scheme tempDir cfg w2 = Some (w3, Inr res)"
    and w': "w' = (if \<not> KeepTempData cfg then RemoveAll w3 tempDir else w3)"
    by (auto split: option.splits)
  let ?man0 = "\<lparr>man_Scheme = scheme, man_Scale = Scale cfg, man_ChunkSize = ChunkSize cfg,
        man_ApproxBytesPerID = ApproxBytesPerID cfg, man_Chunks = []\<rparr>"
  from work obtain w1 man tg tus ci where
    loop: "runScheme_loop L g scheme tempDir cfg w2 ?man0 0 0 0 = Some (w1, Inr (man, tg, tus, ci))"
    and fin: "runScheme_finish L scheme tempDir w1 man tg tus = (w3, Inr res)"
    by (auto simp: runScheme_work_def Let_def split: option.splits sum.splits prod.splits)
  from g loop fin w' show thesis by (rule that)
qed

lemma verifyChunks_loop_None:
  "verifyChunks_loop L w chs = None \<longleftrightarrow> (\<forall>ch\<in>set chs. hashFile L w (Path ch) = Inr (Hash ch))"
  by (induction chs) (auto split: sum.splits)

lemma runScheme_finish_gate:
  "verifyChunks L w man = Some err \<Longrightarrow>
   runScheme_finish L scheme tempDir w man tg tus = (w, Inl err)"
  by (simp add: runScheme_finish_def)

lemma runScheme_work_returns:
  assumes "0 < ChunkSize cfg"
  shows "runScheme_work L g scheme tempDir cfg w \<noteq> None"
proof (cases "ensureDisk L w tempDir (int64 (Scale cfg * ApproxBytesPerID cfg)) (DiskSafetyFactor cfg)")
  case (Some err)
  then show ?thesis by (simp add: runScheme_work_def)
next
  case None
  let ?man = "\<lparr>man_Scheme = scheme, man_Scale = Scale cfg, man_ChunkSize = ChunkSize cfg,
      man_ApproxBytesPerID = ApproxBytesPerID cfg, man_Chunks = []\<rparr>"
  from runScheme_loop_returns [OF assms] obtain y where
    y: "runScheme_loop L g scheme tempDir cfg w ?man 0 0 0 = Some y" by blast
  obtain w1 r where "y = (w1, r)" by (cases y)
  with y None show ?thesis
    by (cases r) (auto simp: runScheme_work_def)
qed

lemma runScheme_returns:
  assumes "0 < ChunkSize cfg"
  shows "runScheme L w scheme cfg \<noteq> None"
proof (cases "generatorFor L scheme")
  case (Inl err)
  then show ?thesis by (simp add: runScheme_def)
next
  case (Inr g)
  define base where "base = (if TempDir cfg = []
                 then (case cwd w of
                         None \<Rightarrow> (w, Inl ErrGetwd)
                       | Some d \<Rightarrow>
                           (case MkdirAll w (filepath_Join d ''tmp'') of
                              (w1, Some err) \<Rightarrow> (w1, Inl ErrCreateTmp)
                            | (w1, None) \<Rightarrow> (w1, Inr (filepath_Join d ''tmp''))))
                 else (w, Inr (TempDir cfg)))"
  have run: "runScheme L w scheme cfg =
    (case base of
             (w1, Inl err) \<Rightarrow> Some (w1, Inl err)
           | (w1, Inr baseDir) \<Rightarrow>
               (case MkdirTemp w1 baseDir (''uidstress-'' @ scheme @ ''-'') of
                  (w2, Inl err) \<Rightarrow> Some (w2, Inl ErrCreateTempDir)
                | (w2, Inr tempDir) \<Rightarrow>
                    (case runScheme_work L g scheme tempDir cfg w2 of
                       None \<Rightarrow> None
                     | Some (w3, res) \<Rightarrow>
                         Some (if \<not> KeepTempData cfg then RemoveAll w3 tempDir else w3, res))))"
    by (simp only: runScheme_def Inr base_def sum.case)
  obtain wb rb where b: "base = (wb, rb)" by (cases base)
  show ?thesis
  proof (cases rb)
    case (Inl err)
    with run b show ?thesis by simp
  next
    case rb: (Inr baseDir)
    obtain w2 rt where t: "MkdirTemp wb baseDir (''uidstress-'' @ scheme @ ''-'') = (w2, rt)"
      by (cases "MkdirTemp wb baseDir (''uidstress-'' @ scheme @ ''-'')")
    show ?thesis
    proof (cases rt)
      case (Inl err)
      with run b rb t show ?thesis by simp
    next
      case rt: (Inr tempDir)
      from runScheme_work_returns [OF assms, of L g scheme tempDir w2] obtain w3 res where
        "runScheme_work L g scheme tempDir cfg w2 = Some (w3, res)" by auto
      with run b rb t rt show ?thesis by simp
    qed
  qed
qed

lemma Run_defaults_chunk:
  assumes "0 < Scale cfg" "ChunkSize cfg \<le> 0 \<or> Scale cfg < ChunkSize cfg"
  shows "Run L w cfg = Run L w (cfg\<lparr>ChunkSize := minInt64 (Scale cfg) 1000000\<rparr>)"
proof -
  have d: "Run_defaults w (c\<lparr>ChunkSize := minInt64 (Scale c) 1000000\<rparr>) = Run_defaults w c"
    if "0 < Scale c" "ChunkSize c \<le> 0 \<or> Scale c < ChunkSize c" for c :: Config
    using that by (simp add: Run_defaults_def minInt64_def)
  let ?cfg' = "cfg\<lparr>ChunkSize := minInt64 (Scale cfg) 1000000\<rparr>"
  show ?thesis
  proof (cases "Schemes cfg = []")
    case False
    with d [of cfg] assms show ?thesis by (simp add: Run_def Let_def)
  next
    case True
    let ?c = "cfg\<lparr>Schemes := [''nanoid16'', ''ulid'', ''ksuid'']\<rparr>"
    have e: "?cfg'\<lparr>Schemes := [''nanoid16'', ''ulid'', ''ksuid'']\<rparr> =
        ?c\<lparr>ChunkSize := minInt64 (Scale ?c) 1000000\<rparr>"
      by simp
    have dd: "Run_defaults w (?c\<lparr>ChunkSize := minInt64 (Scale ?c) 1000000\<rparr>) = Run_defaults w ?c"
      using assms by (intro d) simp_all
    have l: "Run L w cfg = Run_loop L w (Run_defaults w ?c) (Schemes (Run_defaults w ?c)) []"
      using True assms(1) by (simp add: Run_def Let_def)
    have "Run L w ?cfg' =
        Run_loop L w (Run_defaults w (?cfg'\<lparr>Schemes := [''nanoid16'', ''ulid'', ''ksuid'']\<rparr>))
          (Schemes (Run_defaults w (?cfg'\<lparr>Schemes := [''nanoid16'', ''ulid'', ''ksuid'']\<rparr>))) []"
      using True assms(1) by (simp add: Run_def Let_def)
    also have "\<dots> = Run_loop L w (Run_defaults w ?c) (Schemes (Run_defaults w ?c)) []"
      by (simp only: e dd)
    finally show ?thesis using l by simp
  qed
qed

subsection \<open>The claims about \<open>runScheme\<close> and \<open>Run\<close>\<close>

text \<open>The run of the scenario: ten identifiers in chunks of four, four and two.\<close>

lemma demo_run: "\<exists>w'. runScheme demo_lib demo_world ''ulid'' demo_cfg = Some (w', Inr demo_result)"
proof -
  have "map_option snd (runScheme demo_lib demo_world ''ulid'' demo_cfg) = Some (Inr demo_result)"
    by code_simp
  then show ?thesis by auto
qed

text \<open>
  C6. For every scale \<open>S > 0\<close> and every chunk size \<open>C\<close> with \<open>0 < C \<le> S\<close>, a scheme run that
  completes without error reports a total generated count exactly equal to \<open>S\<close>. With a
  positive chunk size the run does return (the chunk loop terminates).
\<close>

theorem generated_total:
  "(0 < ChunkSize cfg \<longrightarrow> runScheme L w scheme cfg \<noteq> None) \<and>
   (0 < Scale cfg \<and> 0 < ChunkSize cfg \<and> ChunkSize cfg \<le> Scale cfg \<and>
    runScheme L w scheme cfg = Some (w', Inr res) \<longrightarrow> Generated res = Scale cfg)"
proof (intro conjI impI)
  assume "0 < ChunkSize cfg"
  then show "runScheme L w scheme cfg \<noteq> None" by (rule runScheme_returns)
next
  assume a: "0 < Scale cfg \<and> 0 < ChunkSize cfg \<and> ChunkSize cfg \<le> Scale cfg \<and>
    runScheme L w scheme cfg = Some (w', Inr res)"
  then have run: "runScheme L w scheme cfg = Some (w', Inr res)" by simp
  from runScheme_success [OF run] obtain g w2 tempDir w1 man tg tus ci w3 where
    loop: "runScheme_loop L g scheme tempDir cfg w2
       \<lparr>man_Scheme = scheme, man_Scale = Scale cfg, man_ChunkSize = ChunkSize cfg,
        man_ApproxBytesPerID = ApproxBytesPerID cfg, man_Chunks = []\<rparr> 0 0 0 =
     Some (w1, Inr (man, tg, tus, ci))"
    and fin: "runScheme_finish L scheme tempDir w1 man tg tus = (w3, Inr res)"
    by metis
  from runScheme_loop_generated [OF loop] a have "tg = Scale cfg" by simp
  with runScheme_finish_success [OF fin] show "Generated res = Scale cfg" by simp
qed

theorem generated_total_witness:
  "runScheme demo_lib demo_world ''ulid'' demo_cfg \<noteq> None \<and>
   map_option snd (runScheme demo_lib demo_world ''ulid'' demo_cfg) = Some (Inr demo_result) \<and>
   Generated demo_result = Scale demo_cfg \<and> Scale demo_cfg = 10 \<and> ChunkSize demo_cfg = 4"
proof -
  obtain w' where run: "runScheme demo_lib demo_world ''ulid'' demo_cfg = Some (w', Inr demo_result)"
    using demo_run by blast
  have c: "0 < Scale demo_cfg \<and> 0 < ChunkSize demo_cfg \<and> ChunkSize demo_cfg \<le> Scale demo_cfg"
    "Scale demo_cfg = 10" "ChunkSize demo_cfg = 4"
    by (simp_all add: demo_cfg_def)
  from generated_total [of demo_cfg demo_lib demo_world "''ulid''" w' demo_result] c run
  show ?thesis by simp
qed

text \<open>
  C2. For every completed scheme run, the sum of the per-chunk locally-unique counts equals
  the merge's globally-unique count plus its cross-chunk duplicate count; a violation of this
  equation is reported as a fatal consistency error rather than being silently accepted.
  The three parts: the equation on the result of \<open>runScheme\<close>; the same with the sum taken
  over the \<open>UniqueCount\<close> fields of the manifest the chunk loop built; and the error that
  \<open>runScheme\<close>'s last part returns when the merge's counts do not add up to the sum.
\<close>

theorem consistency_check:
  "(runScheme L w scheme cfg = Some (w', Inr res) \<longrightarrow>
      ChunkUnique res = Unique res + Duplicates res) \<and>
   (runScheme_loop L g scheme1 tempDir cfg1 w0 man0 0 0 0 = Some (w1, Inr (man, tg, tus, ci)) \<and>
    man_Chunks man0 = [] \<and>
    runScheme_finish L scheme1 tempDir w1 man tg tus = (w2, Inr res1) \<longrightarrow>
      sum_list (map UniqueCount (man_Chunks man)) = Unique res1 + Duplicates res1 \<and>
      ChunkUnique res1 = sum_list (map UniqueCount (man_Chunks man))) \<and>
   (verifyChunks L w3 man3 = None \<and> mergeChunks w3 man3 = (w4, Inr (u, d)) \<and> tus3 \<noteq> u + d \<longrightarrow>
      runScheme_finish L scheme3 tempDir3 w3 man3 tg3 tus3 = (w4, Inl (ErrInconsistent tus3 u d)))"
proof (intro conjI impI)
  assume run: "runScheme L w scheme cfg = Some (w', Inr res)"
  from runScheme_success [OF run] obtain tempDir w1 man tg tus w3 where
    "runScheme_finish L scheme tempDir w1 man tg tus = (w3, Inr res)"
    by metis
  from runScheme_finish_success [OF this]
  show "ChunkUnique res = Unique res + Duplicates res" by simp
next
  assume a: "runScheme_loop L g scheme1 tempDir cfg1 w0 man0 0 0 0 = Some (w1, Inr (man, tg, tus, ci)) \<and>
    man_Chunks man0 = [] \<and>
    runScheme_finish L scheme1 tempDir w1 man tg tus = (w2, Inr res1)"
  then have s: "tus = sum_list (map UniqueCount (man_Chunks man))"
    using runScheme_loop_unique_sum by blast
  from a runScheme_finish_success [of L scheme1 tempDir w1 man tg tus w2 res1]
  have f: "tus = Unique res1 + Duplicates res1" "ChunkUnique res1 = tus" by simp_all
  from s f show "sum_list (map UniqueCount (man_Chunks man)) = Unique res1 + Duplicates res1"
    by simp
  from s f show "ChunkUnique res1 = sum_list (map UniqueCount (man_Chunks man))"
    by simp
next
  assume "verifyChunks L w3 man3 = None \<and> mergeChunks w3 man3 = (w4, Inr (u, d)) \<and> tus3 \<noteq> u + d"
  then show "runScheme_finish L scheme3 tempDir3 w3 man3 tg3 tus3 = (w4, Inl (ErrInconsistent tus3 u d))"
    by (simp add: runScheme_finish_def)
qed

theorem consistency_check_witness:
  "ChunkUnique demo_result = Unique demo_result + Duplicates demo_result \<and>
   (\<exists>man :: manifest.
      sum_list (map UniqueCount (man_Chunks man)) = Unique demo_result + Duplicates demo_result \<and>
      ChunkUnique demo_result = sum_list (map UniqueCount (man_Chunks man))) \<and>
   snd (runScheme_finish demo_lib ''ulid'' ''/t'' demo_chunks (demo_manifest [''a'', ''b'']) 3 7) =
     Inl (ErrInconsistent 7 2 1)"
proof -
  obtain w' where run: "runScheme demo_lib demo_world ''ulid'' demo_cfg = Some (w', Inr demo_result)"
    using demo_run by blast
  from runScheme_success [OF run] obtain g w2 tempDir w1 man tg tus ci w3 where
    loop: "runScheme_loop demo_lib g ''ulid'' tempDir demo_cfg w2
       \<lparr>man_Scheme = ''ulid'', man_Scale = Scale demo_cfg, man_ChunkSize = ChunkSize demo_cfg,
        man_ApproxBytesPerID = ApproxBytesPerID demo_cfg, man_Chunks = []\<rparr> 0 0 0 =
     Some (w1, Inr (man, tg, tus, ci))"
    and fin: "runScheme_finish demo_lib ''ulid'' tempDir w1 man tg tus = (w3, Inr demo_result)"
    by metis
  have v: "verifyChunks demo_lib demo_chunks (demo_manifest [''a'', ''b'']) = None"
    by code_simp
  have m: "snd (mergeChunks demo_chunks (demo_manifest [''a'', ''b''])) = Inr (2, 1)"
    by code_simp
  then have m': "mergeChunks demo_chunks (demo_manifest [''a'', ''b'']) =
      (fst (mergeChunks demo_chunks (demo_manifest [''a'', ''b''])), Inr (2, 1))"
    by (simp add: prod_eq_iff)
  note t = consistency_check [of demo_lib demo_world "''ulid''" demo_cfg w' demo_result
      g "''ulid''" tempDir demo_cfg w2
      "\<lparr>man_Scheme = ''ulid'', man_Scale = Scale demo_cfg, man_ChunkSize = ChunkSize demo_cfg,
        man_ApproxBytesPerID = ApproxBytesPerID demo_cfg, man_Chunks = []\<rparr>"
      w1 man tg tus ci w3 demo_result
      demo_chunks "demo_manifest [''a'', ''b'']"
      "fst (mergeChunks demo_chunks (demo_manifest [''a'', ''b'']))" 2 1 7 "''ulid''" "''/t''" 3]
  from t run have 1: "ChunkUnique demo_result = Unique demo_result + Duplicates demo_result"
    by blast
  from t loop fin have 2: "sum_list (map UniqueCount (man_Chunks man)) =
      Unique demo_result + Duplicates demo_result \<and>
      ChunkUnique demo_result = sum_list (map UniqueCount (man_Chunks man))"
    by simp
  from t v m' have 3: "runScheme_finish demo_lib ''ulid'' ''/t'' demo_chunks
      (demo_manifest [''a'', ''b'']) 3 7 =
      (fst (mergeChunks demo_chunks (demo_manifest [''a'', ''b''])), Inl (ErrInconsistent 7 2 1))"
    by simp
  from 2 have "\<exists>man :: manifest. sum_list (map UniqueCount (man_Chunks man)) =
      Unique demo_result + Duplicates demo_result \<and>
      ChunkUnique demo_result = sum_list (map UniqueCount (man_Chunks man))"
    by (rule exI)
  with 1 3 show ?thesis by simp
qed

text \<open>
  C4. In every scheme run, the merge never runs against unverified data: after all chunks
  are persisted and before \<open>mergeChunks\<close> begins, every chunk record in the manifest has its
  persisted bytes re-read and re-hashed and the result compared to the manifest-recorded
  hash, and any mismatch aborts the run with an error so that \<open>mergeChunks\<close> is never invoked.
  The three parts: \<open>verifyChunks\<close> passes exactly when every chunk file hashes to its recorded
  hash; when it fails, the rest of \<open>runScheme\<close> returns its error in the world as it was (no
  cursor opened, no poll of the context: \<open>mergeChunks\<close> has not run); and in a completed run
  the merge ran on the manifest and world that the chunk loop left, with every chunk
  verified there. The first two parts hold in every world: the chunk files may have changed
  in any way since they were written.
\<close>

theorem verification_gate:
  "(verifyChunks L w man = None \<longleftrightarrow>
      (\<forall>ch\<in>set (man_Chunks man). hashFile L w (Path ch) = Inr (Hash ch))) \<and>
   (verifyChunks L w man = Some err \<longrightarrow>
      runScheme_finish L scheme tempDir w man tg tus = (w, Inl err)) \<and>
   (runScheme L w0 scheme0 cfg = Some (w', Inr res) \<longrightarrow>
      (\<exists>g tempDir0 w2 w1 man1 tg1 tus1 ci1 w3.
         runScheme_loop L g scheme0 tempDir0 cfg w2
           \<lparr>man_Scheme = scheme0, man_Scale = Scale cfg, man_ChunkSize = ChunkSize cfg,
            man_ApproxBytesPerID = ApproxBytesPerID cfg, man_Chunks = []\<rparr> 0 0 0 =
           Some (w1, Inr (man1, tg1, tus1, ci1)) \<and>
         (\<forall>ch\<in>set (man_Chunks man1). hashFile L w1 (Path ch) = Inr (Hash ch)) \<and>
         mergeChunks w1 man1 = (w3, Inr (Unique res, Duplicates res))))"
proof (intro conjI impI)
  show "verifyChunks L w man = None \<longleftrightarrow>
      (\<forall>ch\<in>set (man_Chunks man). hashFile L w (Path ch) = Inr (Hash ch))"
    by (simp add: verifyChunks_def verifyChunks_loop_None)
next
  assume "verifyChunks L w man = Some err"
  then show "runScheme_finish L scheme tempDir w man tg tus = (w, Inl err)"
    by (rule runScheme_finish_gate)
next
  assume run: "runScheme L w0 scheme0 cfg = Some (w', Inr res)"
  from runScheme_success [OF run] obtain g w2 tempDir0 w1 man1 tg1 tus1 ci1 w3 where
    loop: "runScheme_loop L g scheme0 tempDir0 cfg w2
       \<lparr>man_Scheme = scheme0, man_Scale = Scale cfg, man_ChunkSize = ChunkSize cfg,
        man_ApproxBytesPerID = ApproxBytesPerID cfg, man_Chunks = []\<rparr> 0 0 0 =
     Some (w1, Inr (man1, tg1, tus1, ci1))"
    and fin: "runScheme_finish L scheme0 tempDir0 w1 man1 tg1 tus1 = (w3, Inr res)"
    by metis
  from runScheme_finish_success [OF fin]
  have "verifyChunks L w1 man1 = None" "mergeChunks w1 man1 = (w3, Inr (Unique res, Duplicates res))"
    by simp_all
  then have "(\<forall>ch\<in>set (man_Chunks man1). hashFile L w1 (Path ch) = Inr (Hash ch)) \<and>
      mergeChunks w1 man1 = (w3, Inr (Unique res, Duplicates res))"
    by (simp add: verifyChunks_def verifyChunks_loop_None)
  with loop show "\<exists>g tempDir0 w2 w1 man1 tg1 tus1 ci1 w3.
         runScheme_loop L g scheme0 tempDir0 cfg w2
           \<lparr>man_Scheme = scheme0, man_Scale = Scale cfg, man_ChunkSize = ChunkSize cfg,
            man_ApproxBytesPerID = ApproxBytesPerID cfg, man_Chunks = []\<rparr> 0 0 0 =
           Some (w1, Inr (man1, tg1, tus1, ci1)) \<and>
         (\<forall>ch\<in>set (man_Chunks man1). hashFile L w1 (Path ch) = Inr (Hash ch)) \<and>
         mergeChunks w1 man1 = (w3, Inr (Unique res, Duplicates res))"
    by blast
qed

theorem verification_gate_witness:
  "verifyChunks demo_lib demo_chunks (demo_manifest [''a'', ''b'']) = None \<and>
   verifyChunks demo_lib demo_tampered (demo_manifest [''a'', ''b'']) =
     Some (ErrVerifyMismatch ''a'' [CHR ''X'', newline, CHR ''Y'', newline]
            [CHR ''X'', newline, CHR ''Z'', newline]) \<and>
   runScheme_finish demo_lib ''ulid'' ''/t'' demo_tampered (demo_manifest [''a'', ''b'']) 3 3 =
     (demo_tampered, Inl (ErrVerifyMismatch ''a'' [CHR ''X'', newline, CHR ''Y'', newline]
            [CHR ''X'', newline, CHR ''Z'', newline])) \<and>
   (\<exists>w1 man1 w3.
      (\<forall>ch\<in>set (man_Chunks man1). hashFile demo_lib w1 (Path ch) = Inr (Hash ch)) \<and>
      mergeChunks w1 man1 = (w3, Inr (Unique demo_result, Duplicates demo_result)))"
proof -
  obtain w' where run: "runScheme demo_lib demo_world ''ulid'' demo_cfg = Some (w', Inr demo_result)"
    using demo_run by blast
  have h: "\<forall>ch\<in>set (man_Chunks (demo_manifest [''a'', ''b''])).
      hashFile demo_lib demo_chunks (Path ch) = Inr (Hash ch)"
    by code_simp
  have v: "verifyChunks demo_lib demo_tampered (demo_manifest [''a'', ''b'']) =
     Some (ErrVerifyMismatch ''a'' [CHR ''X'', newline, CHR ''Y'', newline]
            [CHR ''X'', newline, CHR ''Z'', newline])"
    by code_simp
  note t1 = verification_gate [of demo_lib demo_chunks "demo_manifest [''a'', ''b'']" _ _ _ _ _
      demo_world "''ulid''" demo_cfg w' demo_result]
  note t2 = verification_gate [of demo_lib demo_tampered "demo_manifest [''a'', ''b'']"
      "ErrVerifyMismatch ''a'' [CHR ''X'', newline, CHR ''Y'', newline]
            [CHR ''X'', newline, CHR ''Z'', newline]" "''ulid''" "''/t''" 3 3]
  from t1 h have 1: "verifyChunks demo_lib demo_chunks (demo_manifest [''a'', ''b'']) = None"
    by blast
  from t2 v have 2: "runScheme_finish demo_lib ''ulid'' ''/t'' demo_tampered
      (demo_manifest [''a'', ''b'']) 3 3 =
     (demo_tampered, Inl (ErrVerifyMismatch ''a'' [CHR ''X'', newline, CHR ''Y'', newline]
            [CHR ''X'', newline, CHR ''Z'', newline]))"
    by blast
  from t1 run have 3: "\<exists>w1 man1 w3.
      (\<forall>ch\<in>set (man_Chunks man1). hashFile demo_lib w1 (Path ch) = Inr (Hash ch)) \<and>
      mergeChunks w1 man1 = (w3, Inr (Unique demo_result, Duplicates demo_result))"
    by blast
  from 1 v 2 3 show ?thesis by blast
qed

text \<open>
  C7, as stated: an invalid scale, an invalid chunk size, or an unknown scheme name causes
  the run to fail with a configuration error before any resource allocation takes place.
  This fails on the code: a chunk size of \<open>0\<close>, or one above the scale, is replaced by a
  default and the run completes; and an unknown scheme that follows a known one is detected
  only after the known scheme has run (a temporary directory created, ten identifiers
  generated).
\<close>

theorem config_error_counterexample:
  "ChunkSize (demo_cfg\<lparr>ChunkSize := 0\<rparr>) \<le> 0 \<and>
   map_option snd (Run demo_lib demo_world (demo_cfg\<lparr>ChunkSize := 0\<rparr>)) =
     Some (Inr [demo_result\<lparr>res_Chunks := 1\<rparr>]) \<and>
   Scale (demo_cfg\<lparr>ChunkSize := 11\<rparr>) < ChunkSize (demo_cfg\<lparr>ChunkSize := 11\<rparr>) \<and>
   map_option snd (Run demo_lib demo_world (demo_cfg\<lparr>ChunkSize := 11\<rparr>)) =
     Some (Inr [demo_result\<lparr>res_Chunks := 1\<rparr>]) \<and>
   map_option snd (Run demo_lib demo_world (demo_cfg\<lparr>Schemes := [''ulid'', ''bogus'']\<rparr>)) =
     Some (Inl (ErrUnknownScheme ''bogus'')) \<and>
   dirs demo_world = [''/t''] \<and> drawn demo_world = 0 \<and>
   map_option (dirs \<circ> fst) (Run demo_lib demo_world (demo_cfg\<lparr>Schemes := [''ulid'', ''bogus'']\<rparr>)) =
     Some [''/t/uidstress-ulid-0'', ''/t''] \<and>
   map_option (drawn \<circ> fst) (Run demo_lib demo_world (demo_cfg\<lparr>Schemes := [''ulid'', ''bogus'']\<rparr>)) =
     Some 10"
  by code_simp

text \<open>
  C7, amended. A scale that is not positive makes \<open>Run\<close> fail with \<open>scale must be > 0\<close> in an
  unchanged world. An unknown scheme name makes \<open>runScheme\<close> fail for that scheme with
  \<open>unknown scheme\<close> in an unchanged world (schemes listed before it have run by then). A chunk
  size that is not positive or exceeds the scale is not an error: \<open>Run\<close> proceeds as with the
  chunk size \<open>min(scale, 1000000)\<close>.
\<close>

theorem config_errors:
  "(Scale cfg \<le> 0 \<longrightarrow> Run L w cfg = Some (w, Inl ErrScale)) \<and>
   (generatorFor L scheme = Inl err \<longrightarrow>
      err = ErrUnknownScheme scheme \<and> runScheme L w scheme cfg = Some (w, Inl err)) \<and>
   (0 < Scale cfg \<and> (ChunkSize cfg \<le> 0 \<or> Scale cfg < ChunkSize cfg) \<longrightarrow>
      Run L w cfg = Run L w (cfg\<lparr>ChunkSize := minInt64 (Scale cfg) 1000000\<rparr>))"
proof (intro conjI impI)
  assume "Scale cfg \<le> 0"
  then show "Run L w cfg = Some (w, Inl ErrScale)" by (simp add: Run_def Let_def)
next
  assume g: "generatorFor L scheme = Inl err"
  then show "err = ErrUnknownScheme scheme"
    by (auto simp: generatorFor_def Let_def split: if_splits)
  from g show "runScheme L w scheme cfg = Some (w, Inl err)" by (rule runScheme_unknown)
next
  assume "0 < Scale cfg \<and> (ChunkSize cfg \<le> 0 \<or> Scale cfg < ChunkSize cfg)"
  then show "Run L w cfg = Run L w (cfg\<lparr>ChunkSize := minInt64 (Scale cfg) 1000000\<rparr>)"
    by (intro Run_defaults_chunk) simp_all
qed

theorem config_errors_witness:
  "Run demo_lib demo_world (demo_cfg\<lparr>Scale := 0\<rparr>) = Some (demo_world, Inl ErrScale) \<and>
   runScheme demo_lib demo_world ''bogus'' demo_cfg = Some (demo_world, Inl (ErrUnknownScheme ''bogus'')) \<and>
   Run demo_lib demo_world (demo_cfg\<lparr>ChunkSize := 0\<rparr>) =
     Run demo_lib demo_world (demo_cfg\<lparr>ChunkSize := 10\<rparr>)"
proof -
  have s: "Scale (demo_cfg\<lparr>Scale := 0\<rparr>) \<le> 0" by simp
  have g: "generatorFor demo_lib ''bogus'' = Inl (ErrUnknownScheme ''bogus'')" by code_simp
  have c: "0 < Scale (demo_cfg\<lparr>ChunkSize := 0\<rparr>) \<and>
      (ChunkSize (demo_cfg\<lparr>ChunkSize := 0\<rparr>) \<le> 0 \<or>
       Scale (demo_cfg\<lparr>ChunkSize := 0\<rparr>) < ChunkSize (demo_cfg\<lparr>ChunkSize := 0\<rparr>))"
    by (simp add: demo_cfg_def)
  have m: "(demo_cfg\<lparr>ChunkSize := 0\<rparr>)\<lparr>ChunkSize := minInt64 (Scale (demo_cfg\<lparr>ChunkSize := 0\<rparr>)) 1000000\<rparr> =
      demo_cfg\<lparr>ChunkSize := 10\<rparr>"
    by (simp add: demo_cfg_def minInt64_def)
  from config_errors [of "demo_cfg\<lparr>Scale := 0\<rparr>" demo_lib demo_world] s
  have 1: "Run demo_lib demo_world (demo_cfg\<lparr>Scale := 0\<rparr>) = Some (demo_world, Inl ErrScale)"
    by blast
  from config_errors [of demo_cfg demo_lib demo_world "''bogus''" "ErrUnknownScheme ''bogus''"] g
  have 2: "runScheme demo_lib demo_world ''bogus'' demo_cfg =
      Some (demo_world, Inl (ErrUnknownScheme ''bogus''))"
    by blast
  from config_errors [of "demo_cfg\<lparr>ChunkSize := 0\<rparr>" demo_lib demo_world] c
  have "Run demo_lib demo_world (demo_cfg\<lparr>ChunkSize := 0\<rparr>) =
      Run demo_lib demo_world ((demo_cfg\<lparr>ChunkSize := 0\<rparr>)\<lparr>ChunkSize :=
        minInt64 (Scale (demo_cfg\<lparr>ChunkSize := 0\<rparr>)) 1000000\<rparr>)"
    by blast
  with m have 3: "Run demo_lib demo_world (demo_cfg\<lparr>ChunkSize := 0\<rparr>) =
     Run demo_lib demo_world (demo_cfg\<lparr>ChunkSize := 10\<rparr>)"
    by simp
  from 1 2 3 show ?thesis by simp
qed

text \<open>
  The memory guard precedes the generator: when \<open>ensureMemory\<close> fails, the iteration returns
  its error in the world as it was, with no identifier generated.
\<close>

lemma runScheme_chunk_memory_guard:
  "ensureMemory L w cfg (minInt64 (ChunkSize cfg) (Scale cfg - tg)) = Some err \<Longrightarrow>
   runScheme_chunk L g scheme tempDir cfg w man tg ci = (w, Inl err)"
  by (simp add: runScheme_chunk_def Let_def)

text \<open>
  C8. Before each chunk's generation, if the available system memory is below the estimated
  requirement \<open>chunkTarget \<times> bytesPerID\<close> plus the configured guard margin, the run fails with
  a resource-exhaustion error before any identifier is generated for that chunk. The code
  misses this where the estimate overflows: the product \<open>chunkTarget*cfg.ApproxBytesPerID\<close> is
  computed in \<open>int64\<close>, and with \<open>chunkTarget = 4\<close> and \<open>ApproxBytesPerID = 2^62\<close> it wraps to
  \<open>0\<close>. With a guard margin of \<open>0\<close>, \<open>ensureMemory\<close> then returns \<open>nil\<close> without reading the
  memory: with one byte available the four identifiers are generated and the run completes.
  (At this input every \<open>float64\<close> operation is exact.)
\<close>

theorem memory_guard_overflow:
  "ChunkSize demo_overflow_cfg = 4 \<and> ApproxBytesPerID demo_overflow_cfg = 2 ^ 62 \<and>
   MemGuardMB demo_overflow_cfg = 0 \<and> mem_available demo_low_memory = Some 1 \<and>
   ensureMemory demo_lib demo_low_memory demo_overflow_cfg 4 = None \<and>
   map_option snd (Run demo_lib demo_low_memory demo_overflow_cfg) =
     Some (Inr [\<lparr>res_Scheme = ''ulid'', res_Chunks = 1, Generated = 4, ChunkUnique = 3,
                 Unique = 3, Duplicates = 0,
                 ManifestPath = ''/t/uidstress-ulid-0/manifest.json'',
                 OutputDir = ''/t/uidstress-ulid-0''\<rparr>]) \<and>
   map_option (drawn \<circ> fst) (Run demo_lib demo_low_memory demo_overflow_cfg) = Some 4"
  by code_simp

end
